theory Spec2Isabelle
  imports Complex_Main "HOL-Library.Multiset" "HOL-Library.Product_Lexorder"
begin

section \<open>Edges of the kd-tree build and their comparator\<close>

text \<open>
  The C struct \<open>edge\<close> of the kd-tree build: a flag and a value. The \<open>double\<close>
  fields of the source are modelled as real numbers (no NaN, no infinity, no rounding)
  everywhere but in the Fresnel coefficients of the glass material, whose double-precision
  arithmetic is modelled as such.
\<close>

record edge =
  is_upper_edge :: bool
  edge_value :: real

text \<open>
  \<open>_edge_compare(p1, p2)\<close>, the comparator handed to \<open>qsort\<close>. On equal values only
  the flag of the second edge is read.
\<close>

definition edge_compare :: "edge \<Rightarrow> edge \<Rightarrow> int" where
  "edge_compare e1 e2 =
     (if edge_value e1 = edge_value e2 then
        (if is_upper_edge e2 then - 1 else 1)
      else if edge_value e1 < edge_value e2 then - 1
      else 1)"

section \<open>Fresnel coefficients of the glass material\<close>

subsection \<open>Double-precision arithmetic\<close>

text \<open>
  \<open>Glass._fresnel\<close> computes with C \<open>double\<close>s inside a \<open>cython.cdivision\<close> block: a
  division is the division of the hardware, which raises nothing and yields an infinity
  or a NaN on a zero divisor. Its arithmetic is therefore modelled with these values and
  with rounding. A \<open>double\<close> is a real number, one of the two infinities, or NaN. The
  two zeros of the format are not told apart: both are \<open>Num 0\<close>.
\<close>

datatype double = Num real | PInf | NInf | NaN

text \<open>
  Rounding to the nearest \<open>double\<close>, ties to the even significand (the default rounding
  mode). \<open>expo x\<close> is the binary exponent of \<open>x\<close>, not below the least normal exponent
  \<open>-1022\<close>; \<open>quantum x\<close> is the distance between neighbouring doubles at \<open>x\<close> (53-bit
  significands, so \<open>2 powr (- 1074)\<close> in the subnormal range); \<open>fl x\<close> is the multiple of
  the quantum nearest to \<open>x\<close>, or an infinity when that leaves the range of the format.
\<close>

definition expo :: "real \<Rightarrow> int" where
  "expo x = max \<lfloor>log 2 \<bar>x\<bar>\<rfloor> (- 1022)"

definition quantum :: "real \<Rightarrow> real" where
  "quantum x = 2 powr (real_of_int (expo x) - 52)"

definition round_even :: "real \<Rightarrow> int" where
  "round_even m =
     (let f = \<lfloor>m\<rfloor>; d = m - real_of_int f
      in if d < 1 / 2 then f else if d > 1 / 2 then f + 1
         else if even f then f else f + 1)"

definition fl :: "real \<Rightarrow> double" where
  "fl x =
     (if x = 0 then Num 0
      else
        (let y = real_of_int (round_even (x / quantum x)) * quantum x
         in if 2 ^ 1024 \<le> \<bar>y\<bar> then (if 0 < y then PInf else NInf) else Num y))"

text \<open>
  The operations of the format: the exact result, rounded; NaN propagates; the
  differences and quotients of infinities and the products of an infinity and zero are
  NaN.
\<close>

fun dneg :: "double \<Rightarrow> double" where
  "dneg (Num a) = Num (- a)"
| "dneg PInf = NInf"
| "dneg NInf = PInf"
| "dneg NaN = NaN"

fun dadd :: "double \<Rightarrow> double \<Rightarrow> double" where
  "dadd NaN b = NaN"
| "dadd a NaN = NaN"
| "dadd PInf NInf = NaN"
| "dadd NInf PInf = NaN"
| "dadd PInf b = PInf"
| "dadd a PInf = PInf"
| "dadd NInf b = NInf"
| "dadd a NInf = NInf"
| "dadd (Num a) (Num b) = fl (a + b)"

definition dsub :: "double \<Rightarrow> double \<Rightarrow> double" where
  "dsub a b = dadd a (dneg b)"

fun dmul :: "double \<Rightarrow> double \<Rightarrow> double" where
  "dmul NaN b = NaN"
| "dmul a NaN = NaN"
| "dmul PInf PInf = PInf"
| "dmul PInf NInf = NInf"
| "dmul NInf PInf = NInf"
| "dmul NInf NInf = PInf"
| "dmul PInf (Num b) = (if b = 0 then NaN else if 0 < b then PInf else NInf)"
| "dmul NInf (Num b) = (if b = 0 then NaN else if 0 < b then NInf else PInf)"
| "dmul (Num a) PInf = (if a = 0 then NaN else if 0 < a then PInf else NInf)"
| "dmul (Num a) NInf = (if a = 0 then NaN else if 0 < a then NInf else PInf)"
| "dmul (Num a) (Num b) = fl (a * b)"

text \<open>
  Division by zero: \<open>0 / 0\<close> is NaN and \<open>a / 0\<close> is an infinity. The zero divisor is
  taken as \<open>+0\<close>; with \<open>-0\<close> the infinity has the other sign, which the squares of
  \<open>_fresnel\<close> remove at once.
\<close>

fun ddiv :: "double \<Rightarrow> double \<Rightarrow> double" where
  "ddiv NaN b = NaN"
| "ddiv a NaN = NaN"
| "ddiv PInf PInf = NaN"
| "ddiv PInf NInf = NaN"
| "ddiv NInf PInf = NaN"
| "ddiv NInf NInf = NaN"
| "ddiv PInf (Num b) = (if 0 \<le> b then PInf else NInf)"
| "ddiv NInf (Num b) = (if 0 \<le> b then NInf else PInf)"
| "ddiv (Num a) PInf = Num 0"
| "ddiv (Num a) NInf = Num 0"
| "ddiv (Num a) (Num b) =
     (if b = 0 then (if a = 0 then NaN else if 0 < a then PInf else NInf)
      else fl (a / b))"

text \<open>
  \<open>x**2\<close> on a \<open>double\<close>: the product \<open>x * x\<close>, rounded.
\<close>

definition dsquare :: "double \<Rightarrow> double" where
  "dsquare a = dmul a a"

subsection \<open>The coefficients\<close>

text \<open>
  \<open>Glass._fresnel(ci, ct, n1, n2, &reflectivity, &transmission)\<close>: the two output
  parameters are returned as a pair \<open>(reflectivity, transmission)\<close>. Every operation of
  the two assignments is an operation on doubles, in the order in which the expression
  is written.
\<close>

definition fresnel :: "double \<Rightarrow> double \<Rightarrow> double \<Rightarrow> double \<Rightarrow> double \<times> double" where
  "fresnel ci ct n1 n2 =
     (let reflectivity =
            dmul (Num 0.5)
              (dadd (dsquare (ddiv (dsub (dmul n1 ci) (dmul n2 ct)) (dadd (dmul n1 ci) (dmul n2 ct))))
                    (dsquare (ddiv (dsub (dmul n1 ct) (dmul n2 ci)) (dadd (dmul n1 ct) (dmul n2 ci)))));
          transmission = dsub (Num 1) reflectivity
      in (reflectivity, transmission))"

text \<open>
  The real numbers that are doubles: an integer significand of at most 53 bits times a
  power of two not below the least subnormal, within the range of the format.
\<close>

definition dyadic :: "real \<Rightarrow> bool" where
  "dyadic x \<longleftrightarrow>
     (\<exists>n j. x = real_of_int n * 2 powr real_of_int j \<and> \<bar>n\<bar> \<le> 2 ^ 53 \<and> - 1074 \<le> j)
     \<and> \<bar>x\<bar> < 2 ^ 1024"

section \<open>Spectral functions\<close>

text \<open>The Python exceptions that the modelled code can end in.\<close>

datatype py_error = ValueError | TypeError | IndexError | NotImplementedError

text \<open>
  \<open>SampledSF\<close>: regularly spaced samples. \<open>samples\<close> is the one-dimensional sample
  array, or \<open>None\<close>; \<open>wavelengths_cache\<close> is the attribute \<open>_wavelengths\<close>, filled on
  demand.
\<close>

record SampledSF =
  min_wavelength :: real
  max_wavelength :: real
  num_samples :: int
  delta_wavelength :: real
  fast_sample :: bool
  samples :: "real list option"
  wavelengths_cache :: "real list option"

text \<open>
  \<open>SampledSF._construct\<close>. The division runs under \<open>cdivision(True)\<close>. The sample
  array has \<open>num_samples\<close> zeros; both callers reach this with \<open>num_samples \<ge> 0\<close> (the
  constructor after its own check, \<open>new_sampledsf\<close> below).
\<close>

definition SampledSF_construct :: "real \<Rightarrow> real \<Rightarrow> int \<Rightarrow> bool \<Rightarrow> SampledSF" where
  "SampledSF_construct min_wl max_wl n fast =
     \<lparr>min_wavelength = min_wl, max_wavelength = max_wl, num_samples = n,
      delta_wavelength = (max_wl - min_wl) / real_of_int n,
      fast_sample = fast,
      samples = Some (replicate (nat n) 0),
      wavelengths_cache = None\<rparr>"

text \<open>
  \<open>SampledSF.__init__\<close>. The first check executes \<open>raise("...")\<close>: the operand is a
  string, not an exception, so Python answers with a \<open>TypeError\<close>. The two later checks
  raise \<open>ValueError\<close>.
\<close>

definition SampledSF_init :: "real \<Rightarrow> real \<Rightarrow> int \<Rightarrow> bool \<Rightarrow> py_error + SampledSF" where
  "SampledSF_init min_wl max_wl n fast =
     (if n < 1 then Inl TypeError
      else if min_wl \<le> 0 \<or> max_wl \<le> 0 then Inl ValueError
      else if min_wl \<ge> max_wl then Inl ValueError
      else Inr (SampledSF_construct min_wl max_wl n fast))"

text \<open>
  \<open>new_sampledsf\<close>: builds the object without the constructor's checks and always with
  \<open>fast_sample = False\<close>. For a negative \<open>num_samples\<close> numpy refuses the allocation
  (negative dimensions); the model ends in an error there.
\<close>

definition new_sampledsf :: "real \<Rightarrow> real \<Rightarrow> int \<Rightarrow> py_error + SampledSF" where
  "new_sampledsf min_wl max_wl n =
     (if n < 0 then Inl ValueError else Inr (SampledSF_construct min_wl max_wl n False))"

definition is_shaped :: "SampledSF \<Rightarrow> real \<Rightarrow> real \<Rightarrow> int \<Rightarrow> bool" where
  "is_shaped self min_wl max_wl n \<longleftrightarrow>
     min_wavelength self = min_wl \<and> max_wavelength self = max_wl \<and> num_samples self = n"

text \<open>
  \<open>SampledSF._populate_wavelengths\<close>: the array of bin centres is computed when the
  cache is empty and kept. \<open>populated\<close> is the array the object holds afterwards.
\<close>

definition populated :: "SampledSF \<Rightarrow> real list" where
  "populated self =
     (case wavelengths_cache self of
        None \<Rightarrow>
          map (\<lambda>index. min_wavelength self + (0.5 + real index) * delta_wavelength self)
              [0..<nat (num_samples self)]
      | Some w \<Rightarrow> w)"

definition populate_wavelengths :: "SampledSF \<Rightarrow> SampledSF" where
  "populate_wavelengths self = self\<lparr>wavelengths_cache := Some (populated self)\<rparr>"

text \<open>
  The two sampling loops shared by \<open>SampledSF.sample_multiple\<close> and
  \<open>InterpolatedSF.sample_multiple\<close>. \<open>interpolate\<close> and \<open>integrate\<close> live in
  \<open>raysect.core.math.utility\<close>; they are parameters here, already applied to the anchor
  arrays, and may fail. The fast loop samples each bin centre; the slow loop carries
  \<open>lower_wavelength\<close> from one bin to the next.
\<close>

fun sample_centres ::
  "(real \<Rightarrow> py_error + real) \<Rightarrow> real \<Rightarrow> real \<Rightarrow> nat list \<Rightarrow> py_error + real list" where
  "sample_centres interp min_wl delta [] = Inr []"
| "sample_centres interp min_wl delta (index # rest) =
     (case interp (min_wl + (0.5 + real index) * delta) of
        Inl e \<Rightarrow> Inl e
      | Inr y \<Rightarrow>
          (case sample_centres interp min_wl delta rest of
             Inl e \<Rightarrow> Inl e
           | Inr ys \<Rightarrow> Inr (y # ys)))"

fun average_bins ::
  "(real \<Rightarrow> real \<Rightarrow> py_error + real) \<Rightarrow> real \<Rightarrow> real \<Rightarrow> real \<Rightarrow> real \<Rightarrow> nat list
     \<Rightarrow> py_error + real list" where
  "average_bins integ min_wl delta reciprocal lower_wl [] = Inr []"
| "average_bins integ min_wl delta reciprocal lower_wl (index # rest) =
     (let upper_wl = min_wl + (real index + 1) * delta in
      case integ lower_wl upper_wl of
        Inl e \<Rightarrow> Inl e
      | Inr y \<Rightarrow>
          (case average_bins integ min_wl delta reciprocal upper_wl rest of
             Inl e \<Rightarrow> Inl e
           | Inr ys \<Rightarrow> Inr (reciprocal * y # ys)))"

definition fill_bins ::
  "(real list \<Rightarrow> real list \<Rightarrow> real \<Rightarrow> py_error + real)
   \<Rightarrow> (real list \<Rightarrow> real list \<Rightarrow> real \<Rightarrow> real \<Rightarrow> py_error + real)
   \<Rightarrow> bool \<Rightarrow> real list \<Rightarrow> real list \<Rightarrow> real \<Rightarrow> int \<Rightarrow> SampledSF \<Rightarrow> py_error + SampledSF" where
  "fill_bins interpolate integrate fast w smp min_wl n s =
     (case (if fast
            then sample_centres (interpolate w smp) min_wl (delta_wavelength s) [0..<nat n]
            else average_bins (integrate w smp) min_wl (delta_wavelength s)
                   (1 / delta_wavelength s) min_wl [0..<nat n]) of
        Inl e \<Rightarrow> Inl e
      | Inr bins \<Rightarrow> Inr (s\<lparr>samples := Some bins\<rparr>))"

text \<open>
  \<open>SampledSF.sample_multiple\<close>. It returns the sampled object together with \<open>self\<close> as
  the call leaves it (the wavelength cache may have been filled). When the requested shape
  matches, \<open>self\<close> itself is returned.
\<close>

definition SampledSF_sample_multiple ::
  "(real list \<Rightarrow> real list \<Rightarrow> real \<Rightarrow> py_error + real)
   \<Rightarrow> (real list \<Rightarrow> real list \<Rightarrow> real \<Rightarrow> real \<Rightarrow> py_error + real)
   \<Rightarrow> SampledSF \<Rightarrow> real \<Rightarrow> real \<Rightarrow> int \<Rightarrow> py_error + (SampledSF \<times> SampledSF)" where
  "SampledSF_sample_multiple interpolate integrate self min_wl max_wl n =
     (case samples self of
        None \<Rightarrow> Inl ValueError
      | Some smp \<Rightarrow>
          if int (length smp) \<noteq> num_samples self then Inl ValueError
          else if is_shaped self min_wl max_wl n then Inr (self, self)
          else
            (case new_sampledsf min_wl max_wl n of
               Inl e \<Rightarrow> Inl e
             | Inr s \<Rightarrow>
                 (let self' = populate_wavelengths self in
                  case fill_bins interpolate integrate (fast_sample self)
                         (populated self) smp min_wl n s of
                    Inl e \<Rightarrow> Inl e
                  | Inr s' \<Rightarrow> Inr (s', self'))))"

text \<open>
  A numpy array as far as the constructor of \<open>InterpolatedSF\<close> looks at it: its shape and
  its elements in storage order.
\<close>

record ndarray =
  shape :: "nat list"
  elems :: "real list"

record InterpolatedSF =
  isf_wavelengths :: "ndarray option"
  isf_samples :: "ndarray option"
  isf_fast_sample :: bool

text \<open>
  \<open>InterpolatedSF.__init__\<close>, on the arrays that \<open>numpy.array\<close> made of its arguments.
  Only the wavelength array is checked for being one-dimensional; \<open>samples.shape[0]\<close> on
  a zero-dimensional array is an \<open>IndexError\<close>.
\<close>

definition InterpolatedSF_init :: "ndarray \<Rightarrow> ndarray \<Rightarrow> bool \<Rightarrow> py_error + InterpolatedSF" where
  "InterpolatedSF_init wl smp fast =
     (case shape wl of
        [k'] \<Rightarrow>
          (case shape smp of
             [] \<Rightarrow> Inl IndexError
           | k # _ \<Rightarrow>
               if k \<noteq> k' then Inl ValueError
               else Inr \<lparr>isf_wavelengths = Some wl, isf_samples = Some smp, isf_fast_sample = fast\<rparr>)
      | _ \<Rightarrow> Inl ValueError)"

text \<open>\<open>a.shape[0]\<close> of an array \<open>a\<close>.\<close>

definition shape0 :: "ndarray \<Rightarrow> py_error + nat" where
  "shape0 a = (case shape a of [] \<Rightarrow> Inl IndexError | k # _ \<Rightarrow> Inr k)"

text \<open>\<open>InterpolatedSF.sample_multiple\<close>.\<close>

definition InterpolatedSF_sample_multiple ::
  "(real list \<Rightarrow> real list \<Rightarrow> real \<Rightarrow> py_error + real)
   \<Rightarrow> (real list \<Rightarrow> real list \<Rightarrow> real \<Rightarrow> real \<Rightarrow> py_error + real)
   \<Rightarrow> InterpolatedSF \<Rightarrow> real \<Rightarrow> real \<Rightarrow> int \<Rightarrow> py_error + SampledSF" where
  "InterpolatedSF_sample_multiple interpolate integrate self min_wl max_wl n =
     (case isf_samples self of
        None \<Rightarrow> Inl ValueError
      | Some smp \<Rightarrow>
          (case isf_wavelengths self of
             None \<Rightarrow> Inl ValueError
           | Some wl \<Rightarrow>
               (case shape0 smp of
                  Inl e \<Rightarrow> Inl e
                | Inr k \<Rightarrow>
                    (case shape0 wl of
                       Inl e \<Rightarrow> Inl e
                     | Inr k' \<Rightarrow>
                         if k \<noteq> k' then Inl ValueError
                         else
                           (case new_sampledsf min_wl max_wl n of
                              Inl e \<Rightarrow> Inl e
                            | Inr s \<Rightarrow>
                                fill_bins interpolate integrate (isf_fast_sample self)
                                  (elems wl) (elems smp) min_wl n s)))))"

text \<open>
  \<open>ConstantSF\<close>: a value and a one-slot cache of the last \<open>SampledSF\<close> handed out.
\<close>

record ConstantSF =
  const_value :: real
  cached_samples :: "SampledSF option"

definition ConstantSF_init :: "real \<Rightarrow> ConstantSF" where
  "ConstantSF_init v = \<lparr>const_value = v, cached_samples = None\<rparr>"

text \<open>
  \<open>ConstantSF.sample_multiple\<close>: the cached object when its shape matches, else a new
  object whose bins are all set to the value (\<open>s_view[:] = self.value\<close>), which then
  replaces the cache. The result is paired with \<open>self\<close> after the call.
\<close>

definition generate_samples :: "ConstantSF \<Rightarrow> real \<Rightarrow> real \<Rightarrow> int \<Rightarrow> py_error + (SampledSF \<times> ConstantSF)" where
  "generate_samples self min_wl max_wl n =
     (case new_sampledsf min_wl max_wl n of
        Inl e \<Rightarrow> Inl e
      | Inr s0 \<Rightarrow>
          (let s = s0\<lparr>samples := map_option (map (\<lambda>_. const_value self)) (samples s0)\<rparr>
           in Inr (s, self\<lparr>cached_samples := Some s\<rparr>)))"

definition ConstantSF_sample_multiple ::
  "ConstantSF \<Rightarrow> real \<Rightarrow> real \<Rightarrow> int \<Rightarrow> py_error + (SampledSF \<times> ConstantSF)" where
  "ConstantSF_sample_multiple self min_wl max_wl n =
     (case cached_samples self of
        Some c \<Rightarrow>
          if is_shaped c min_wl max_wl n then Inr (c, self)
          else generate_samples self min_wl max_wl n
      | None \<Rightarrow> generate_samples self min_wl max_wl n)"

text \<open>
  The state of a \<open>ConstantSF\<close> after a sequence of \<open>sample_multiple\<close> requests; a request
  that raises leaves the object as it was.
\<close>

fun after_requests :: "ConstantSF \<Rightarrow> (real \<times> real \<times> int) list \<Rightarrow> ConstantSF" where
  "after_requests self [] = self"
| "after_requests self ((min_wl, max_wl, n) # rest) =
     (case ConstantSF_sample_multiple self min_wl max_wl n of
        Inl e \<Rightarrow> after_requests self rest
      | Inr (s, self') \<Rightarrow> after_requests self' rest)"

text \<open>
  What every \<open>ConstantSF\<close> of value \<open>v\<close> keeps true of its cache: the cached object, if
  any, holds \<open>v\<close> in every bin and is not a fast-sampling one.
\<close>

definition cache_ok :: "real \<Rightarrow> ConstantSF \<Rightarrow> bool" where
  "cache_ok v self \<longleftrightarrow>
     const_value self = v \<and>
     (case cached_samples self of
        None \<Rightarrow> True
      | Some c \<Rightarrow> samples c = Some (replicate (nat (num_samples c)) v) \<and> \<not> fast_sample c)"

section \<open>Points, rays and bounding boxes\<close>

text \<open>
  Modelled from the spec: the classes \<open>Point\<close>, \<open>Vector\<close>, \<open>Ray\<close> and \<open>BoundingBox\<close>
  are not among the source files; the kd-tree uses them through the operations listed in
  the spec (union, surface area, largest axis, containment, ray/slab intersection,
  componentwise access).
\<close>

record Point =
  px :: real
  py :: real
  pz :: real

record Vector =
  vx :: real
  vy :: real
  vz :: real

record Ray =
  origin :: Point
  direction :: Vector

record BoundingBox =
  lower :: Point
  upper :: Point

text \<open>
  \<open>get_index(axis)\<close> and \<open>set_index(axis, v)\<close>. The kd-tree calls them with a branch type
  or a build axis, which are 0, 1 or 2.
\<close>

definition get_index :: "Point \<Rightarrow> int \<Rightarrow> real" where
  "get_index p axis = (if axis = 0 then px p else if axis = 1 then py p else pz p)"

definition vget_index :: "Vector \<Rightarrow> int \<Rightarrow> real" where
  "vget_index v axis = (if axis = 0 then vx v else if axis = 1 then vy v else vz v)"

definition set_index :: "Point \<Rightarrow> int \<Rightarrow> real \<Rightarrow> Point" where
  "set_index p axis v =
     (if axis = 0 then p\<lparr>px := v\<rparr> else if axis = 1 then p\<lparr>py := v\<rparr> else p\<lparr>pz := v\<rparr>)"

text \<open>
  Modelled from the spec: \<open>BoundingBox()\<close> is the empty box, written \<open>None\<close> here, and
  \<open>union\<close> extends a box to include another.
\<close>

definition box_union :: "BoundingBox option \<Rightarrow> BoundingBox \<Rightarrow> BoundingBox option" where
  "box_union self other =
     (case self of
        None \<Rightarrow> Some other
      | Some b \<Rightarrow>
          Some \<lparr>lower = \<lparr>px = min (px (lower b)) (px (lower other)),
                          py = min (py (lower b)) (py (lower other)),
                          pz = min (pz (lower b)) (pz (lower other))\<rparr>,
                upper = \<lparr>px = max (px (upper b)) (px (upper other)),
                          py = max (py (upper b)) (py (upper other)),
                          pz = max (pz (upper b)) (pz (upper other))\<rparr>\<rparr>)"

text \<open>Modelled from the spec: \<open>surface_area()\<close> is \<open>2 (dx dy + dy dz + dz dx)\<close>.\<close>

definition surface_area :: "BoundingBox \<Rightarrow> real" where
  "surface_area b =
     (let dx = px (upper b) - px (lower b);
          dy = py (upper b) - py (lower b);
          dz = pz (upper b) - pz (lower b)
      in 2 * (dx * dy + dy * dz + dz * dx))"

text \<open>
  Modelled from the spec: \<open>largest_axis()\<close> is the axis of greatest extent, the lowest
  index winning a tie.
\<close>

definition largest_axis :: "BoundingBox \<Rightarrow> int" where
  "largest_axis b =
     (let dx = px (upper b) - px (lower b);
          dy = py (upper b) - py (lower b);
          dz = pz (upper b) - pz (lower b)
      in if dx \<ge> dy \<and> dx \<ge> dz then 0 else if dy \<ge> dz then 1 else 2)"

text \<open>Modelled from the spec: \<open>contains(point)\<close>, inclusive on all faces.\<close>

definition box_contains :: "BoundingBox option \<Rightarrow> Point \<Rightarrow> bool" where
  "box_contains self p =
     (case self of
        None \<Rightarrow> False
      | Some b \<Rightarrow>
          px (lower b) \<le> px p \<and> px p \<le> px (upper b) \<and>
          py (lower b) \<le> py p \<and> py p \<le> py (upper b) \<and>
          pz (lower b) \<le> pz p \<and> pz p \<le> pz (upper b))"

text \<open>
  Modelled from the spec: \<open>full_intersection(ray)\<close> by the slab method. Each axis
  restricts the ray parameter to a span; a ray parallel to a slab is either unrestricted
  by it or misses. The result is \<open>(hit, t_min, t_max)\<close>. A ray whose direction is the zero
  vector has no finite span; the model reports a miss for it.
\<close>

datatype span = Miss | Whole | Span real real

definition slab :: "real \<Rightarrow> real \<Rightarrow> real \<Rightarrow> real \<Rightarrow> span" where
  "slab o_a d_a lo hi =
     (if d_a = 0 then (if lo \<le> o_a \<and> o_a \<le> hi then Whole else Miss)
      else Span (min ((lo - o_a) / d_a) ((hi - o_a) / d_a))
                (max ((lo - o_a) / d_a) ((hi - o_a) / d_a)))"

fun meet :: "span \<Rightarrow> span \<Rightarrow> span" where
  "meet Miss s = Miss"
| "meet s Miss = Miss"
| "meet Whole s = s"
| "meet s Whole = s"
| "meet (Span a b) (Span c d) = (if max a c \<le> min b d then Span (max a c) (min b d) else Miss)"

definition full_intersection :: "BoundingBox option \<Rightarrow> Ray \<Rightarrow> bool \<times> real \<times> real" where
  "full_intersection self ray =
     (case self of
        None \<Rightarrow> (False, 0, 0)
      | Some b \<Rightarrow>
          (case meet (slab (px (origin ray)) (vx (direction ray)) (px (lower b)) (px (upper b)))
                (meet (slab (py (origin ray)) (vy (direction ray)) (py (lower b)) (py (upper b)))
                      (slab (pz (origin ray)) (vz (direction ray)) (pz (lower b)) (pz (upper b)))) of
             Span t_min t_max \<Rightarrow> if t_max < 0 then (False, 0, 0) else (True, t_min, t_max)
           | _ \<Rightarrow> (False, 0, 0)))"

section \<open>The kd-tree\<close>

text \<open>\<open>Item\<close>: an id and the bounding box of the object it stands for.\<close>

record Item =
  item_id :: int
  box :: BoundingBox

text \<open>
  The C struct \<open>kdnode\<close>. \<open>node_type\<close> is \<open>LEAF\<close> or the split axis of a branch;
  \<open>node_count\<close> is the number of items of a leaf and the index of the upper child of a
  branch; \<open>node_items\<close> is the item array of a leaf.
\<close>

record kdnode =
  node_type :: int
  node_split :: real
  node_count :: int
  node_items :: "int list"

definition LEAF :: int where "LEAF = - 1"

definition ROOT_NODE :: int where "ROOT_NODE = 0"

definition INITIAL_NODE_COUNT :: int where "INITIAL_NODE_COUNT = 128"

text \<open>
  The state of a \<open>KDTreeCore\<close>. \<open>nodes\<close> holds the slots of \<open>_nodes\<close> in use, so
  \<open>_next_node\<close> is its length; \<open>allocated_nodes\<close> is the capacity of the array.
\<close>

record KDTreeCore =
  nodes :: "kdnode list"
  allocated_nodes :: int
  bounds :: "BoundingBox option"
  max_depth :: int
  min_items :: int
  hit_cost :: real
  empty_bonus :: real

definition next_node :: "KDTreeCore \<Rightarrow> int" where
  "next_node t = int (length (nodes t))"

text \<open>
  A slot as \<open>PyMem_Realloc\<close> hands it out. Its content is not specified; every field
  that is read later is written first.
\<close>

definition fresh_slot :: kdnode where
  "fresh_slot = \<lparr>node_type = 0, node_split = 0, node_count = 0, node_items = []\<rparr>"

text \<open>
  \<open>_new_node\<close>: doubles the capacity when it is exhausted and hands out the next index.
  A failing allocation is not modelled.
\<close>

definition new_node :: "KDTreeCore \<Rightarrow> int \<times> KDTreeCore" where
  "new_node t =
     (let t' = (if next_node t = allocated_nodes t
                then t\<lparr>allocated_nodes := max INITIAL_NODE_COUNT (allocated_nodes t * 2)\<rparr>
                else t)
      in (next_node t, t'\<lparr>nodes := nodes t' @ [fresh_slot]\<rparr>))"

text \<open>Assignment to fields of \<open>self._nodes[id]\<close>.\<close>

definition set_node :: "KDTreeCore \<Rightarrow> int \<Rightarrow> (kdnode \<Rightarrow> kdnode) \<Rightarrow> KDTreeCore" where
  "set_node t nid f = t\<lparr>nodes := (nodes t)[nat nid := f (nodes t ! nat nid)]\<rparr>"

text \<open>
  \<open>_new_leaf(items)\<close>, on the ids of the items (the only field it reads). The item
  array is allocated and filled only when there is an item.
\<close>

definition new_leaf :: "int list \<Rightarrow> KDTreeCore \<Rightarrow> int \<times> KDTreeCore" where
  "new_leaf ids t =
     (let count = int (length ids);
          (nid, t1) = new_node t
      in (nid, set_node t1 nid
                (\<lambda>n. n\<lparr>node_type := LEAF, node_count := count,
                        node_items := (if count > 0 then ids else node_items n)\<rparr>)))"

text \<open>\<open>_get_lower_bounds\<close> and \<open>_get_upper_bounds\<close>.\<close>

definition get_lower_bounds :: "BoundingBox \<Rightarrow> real \<Rightarrow> int \<Rightarrow> BoundingBox" where
  "get_lower_bounds b split axis = \<lparr>lower = lower b, upper = set_index (upper b) axis split\<rparr>"

definition get_upper_bounds :: "BoundingBox \<Rightarrow> real \<Rightarrow> int \<Rightarrow> BoundingBox" where
  "get_upper_bounds b split axis = \<lparr>lower = set_index (lower b) axis split, upper = upper b\<rparr>"

text \<open>
  \<open>qsort\<close> belongs to the C library. It is modelled by insertion: an edge is placed in
  front of the first edge that the comparator puts it before. For \<open>_edge_compare\<close> every
  arrangement that respects the comparator on distinct edges is this one
  (\<open>edge_order_unique\<close> below), since two edges that agree in value and flag are equal.
\<close>

fun insert_by :: "('a \<Rightarrow> 'a \<Rightarrow> int) \<Rightarrow> 'a \<Rightarrow> 'a list \<Rightarrow> 'a list" where
  "insert_by cmp e [] = [e]"
| "insert_by cmp e (e' # es) = (if cmp e e' < 0 then e # e' # es else e' # insert_by cmp e es)"

definition qsort :: "('a \<Rightarrow> 'a \<Rightarrow> int) \<Rightarrow> 'a list \<Rightarrow> 'a list" where
  "qsort cmp es = foldr (insert_by cmp) es []"

text \<open>
  \<open>_get_edges(items, axis)\<close>: the lower and the upper edge of every item, in item order,
  then sorted with \<open>_edge_compare\<close>.
\<close>

definition item_edges :: "int \<Rightarrow> Item \<Rightarrow> edge list" where
  "item_edges axis item =
     [\<lparr>is_upper_edge = False, edge_value = get_index (lower (box item)) axis\<rparr>,
      \<lparr>is_upper_edge = True, edge_value = get_index (upper (box item)) axis\<rparr>]"

definition get_edges :: "Item list \<Rightarrow> int \<Rightarrow> edge list" where
  "get_edges items axis = qsort edge_compare (concat (map (item_edges axis) items))"

subsection \<open>Build\<close>

text \<open>
  The local variables of \<open>_split\<close> that the sweep over the candidate edges updates.
\<close>

record search =
  lower_count :: int
  upper_count :: int
  best_cost :: real
  best_split :: real
  best_axis :: int
  is_leaf :: bool

text \<open>
  One pass of the inner loop of \<open>_split\<close>, for the edge \<open>e\<close>. The source multiplies
  by \<open>recip_total_sa = 1.0 / bounds.surface_area()\<close>, computed under \<open>cdivision(True)\<close>:
  for a surface area of zero the reciprocal is infinite, the cost is infinite or not a
  number, and the test \<open>cost < best_cost\<close> fails. The model takes the surface area and
  writes that case out.
\<close>

definition sweep_edge ::
  "KDTreeCore \<Rightarrow> BoundingBox \<Rightarrow> int \<Rightarrow> real \<Rightarrow> search \<Rightarrow> edge \<Rightarrow> search" where
  "sweep_edge t bnds axis total_sa s e =
     (let s1 = (if is_upper_edge e then s\<lparr>upper_count := upper_count s - 1\<rparr> else s);
          split = edge_value e;
          s2 = (if get_index (lower bnds) axis < split \<and> split < get_index (upper bnds) axis
                then
                  (let lower_sa = surface_area (get_lower_bounds bnds split axis);
                       upper_sa = surface_area (get_upper_bounds bnds split axis);
                       bonus = (if lower_count s1 = 0 \<or> upper_count s1 = 0
                                then 1 - empty_bonus t else 1);
                       cost = 1 + bonus * (lower_sa * real_of_int (lower_count s1)
                                           + upper_sa * real_of_int (upper_count s1))
                                        * (1 / total_sa) * hit_cost t
                   in if total_sa \<noteq> 0 \<and> cost < best_cost s1
                      then s1\<lparr>best_cost := cost, best_split := split, best_axis := axis,
                              is_leaf := False\<rparr>
                      else s1)
                else s1)
      in if \<not> is_upper_edge e then s2\<lparr>lower_count := lower_count s2 + 1\<rparr> else s2)"

text \<open>
  The loop over the axes of \<open>_split\<close>: the counts are reset for each axis, and the loop
  is left at the first axis after which a split is known.
\<close>

fun search_axes ::
  "KDTreeCore \<Rightarrow> Item list \<Rightarrow> BoundingBox \<Rightarrow> real \<Rightarrow> search \<Rightarrow> int list \<Rightarrow> search" where
  "search_axes t items bnds total_sa s [] = s"
| "search_axes t items bnds total_sa s (axis # rest) =
     (let s' = foldl (sweep_edge t bnds axis total_sa)
                 (s\<lparr>lower_count := 0, upper_count := int (length items)\<rparr>)
                 (get_edges items axis)
      in if \<not> is_leaf s' then s' else search_axes t items bnds total_sa s' rest)"

text \<open>
  \<open>_split(items, bounds)\<close>: \<open>None\<close>, or the split solution
  \<open>(axis, split, lower_items, lower_bounds, upper_items, upper_bounds)\<close>.
\<close>

definition kd_split ::
  "KDTreeCore \<Rightarrow> Item list \<Rightarrow> BoundingBox
     \<Rightarrow> (int \<times> real \<times> Item list \<times> BoundingBox \<times> Item list \<times> BoundingBox) option" where
  "kd_split t items bnds =
     (let longest_axis = largest_axis bnds;
          s = search_axes t items bnds (surface_area bnds)
                \<lparr>lower_count = 0, upper_count = int (length items),
                 best_cost = real (length items) * hit_cost t,
                 best_split = 0, best_axis = - 1, is_leaf = True\<rparr>
                [longest_axis, (longest_axis + 1) mod 3, (longest_axis + 2) mod 3]
      in if is_leaf s then None
         else Some (best_axis s, best_split s,
                    filter (\<lambda>item. get_index (lower (box item)) (best_axis s) < best_split s) items,
                    get_lower_bounds bnds (best_split s) (best_axis s),
                    filter (\<lambda>item. get_index (upper (box item)) (best_axis s) > best_split s) items,
                    get_upper_bounds bnds (best_split s) (best_axis s)))"

text \<open>
  \<open>_build(items, bounds, depth)\<close> with \<open>_new_branch\<close> written in place (the two call
  each other). The first argument bounds the number of nested calls; \<open>None\<close> means that
  it did not suffice. The branch slot is written after both children are built.
\<close>

fun build ::
  "nat \<Rightarrow> Item list \<Rightarrow> BoundingBox \<Rightarrow> int \<Rightarrow> KDTreeCore \<Rightarrow> (int \<times> KDTreeCore) option" where
  "build 0 items bnds depth t = None"
| "build (Suc fuel) items bnds depth t =
     (if depth = max_depth t \<or> int (length items) \<le> min_items t
      then Some (new_leaf (map item_id items) t)
      else
        (case kd_split t items bnds of
           None \<Rightarrow> Some (new_leaf (map item_id items) t)
         | Some (axis, split, lower_items, lower_bounds, upper_items, upper_bounds) \<Rightarrow>
             (let (nid, t1) = new_node t in
              case build fuel lower_items lower_bounds (depth + 1) t1 of
                None \<Rightarrow> None
              | Some (lower_id, t2) \<Rightarrow>
                  (case build fuel upper_items upper_bounds (depth + 1) t2 of
                     None \<Rightarrow> None
                   | Some (upper_id, t3) \<Rightarrow>
                       Some (nid, set_node t3 nid
                               (\<lambda>n. n\<lparr>node_count := upper_id, node_type := axis,
                                       node_split := split\<rparr>))))))"

text \<open>\<open>__cinit__\<close>: no nodes, no capacity. The other fields are set by whoever follows.\<close>

definition cinit :: KDTreeCore where
  "cinit = \<lparr>nodes = [], allocated_nodes = 0, bounds = None, max_depth = 0, min_items = 0,
            hit_cost = 0, empty_bonus = 0\<rparr>"

text \<open>
  \<open>KDTreeCore.__init__\<close>. A \<open>max_depth\<close> of zero is replaced by
  \<open>ceil(8 + 1.3 log(len(items)))\<close>. The depth of the recursion of \<open>_build\<close> is bounded
  by \<open>max_depth\<close>, which is what the first argument of \<open>build\<close> is given. For an empty
  item list the bounds stay the empty box and \<open>_build\<close> emits a leaf at once; the
  logarithm of zero, which the source then takes, plays no part in the result.
\<close>

definition auto_depth :: "int \<Rightarrow> nat \<Rightarrow> int" where
  "auto_depth d n = (if max 0 d = 0 then \<lceil>8 + 1.3 * ln (real n)\<rceil> else max 0 d)"

definition KDTreeCore_init ::
  "Item list \<Rightarrow> int \<Rightarrow> int \<Rightarrow> real \<Rightarrow> real \<Rightarrow> (py_error + KDTreeCore) option" where
  "KDTreeCore_init items max_depth_arg min_items_arg hit_cost_arg empty_bonus_arg =
     (if empty_bonus_arg < 0 \<or> empty_bonus_arg > 1 then Some (Inl ValueError)
      else
        (let t = cinit\<lparr>empty_bonus := empty_bonus_arg,
                       max_depth := auto_depth max_depth_arg (length items),
                       min_items := max 1 min_items_arg,
                       hit_cost := max 1 hit_cost_arg,
                       bounds := foldl box_union None (map box items)\<rparr>
         in case bounds t of
              None \<Rightarrow> Some (Inr (snd (new_leaf (map item_id items) t)))
            | Some b \<Rightarrow>
                (case build (nat (max_depth t) + 1) items b 0 t of
                   None \<Rightarrow> None
                 | Some (root_id, t') \<Rightarrow> Some (Inr t'))))"

subsection \<open>Persisted state\<close>

text \<open>
  The tuple that \<open>__getstate__\<close> makes of a node: \<open>(type, items)\<close> for a leaf and
  \<open>(type, (split, count))\<close> for a branch.
\<close>

type_synonym node_state = "int \<times> (int list + real \<times> int)"

type_synonym tree_state = "BoundingBox option \<times> node_state list \<times> (int \<times> int \<times> real \<times> real)"

text \<open>The ids \<open>items[0], ..., items[count - 1]\<close> of a leaf.\<close>

definition leaf_items :: "kdnode \<Rightarrow> int list" where
  "leaf_items n = map (\<lambda>item. node_items n ! item) [0..<nat (node_count n)]"

definition encode_node :: "kdnode \<Rightarrow> node_state" where
  "encode_node n =
     (if node_type n = LEAF then (node_type n, Inl (leaf_items n))
      else (node_type n, Inr (node_split n, node_count n)))"

definition getstate :: "KDTreeCore \<Rightarrow> tree_state" where
  "getstate self =
     (bounds self, map encode_node (nodes self),
      (max_depth self, min_items self, hit_cost self, empty_bonus self))"

text \<open>\<open>_reset\<close>: all memory is released.\<close>

definition reset :: "KDTreeCore \<Rightarrow> KDTreeCore" where
  "reset self = self\<lparr>nodes := [], allocated_nodes := 0\<rparr>"

text \<open>
  The loop of \<open>__setstate__\<close> over the persisted nodes. A leaf goes through
  \<open>_new_leaf\<close> (on \<open>Item(id, None)\<close> for each id), a branch through \<open>_new_node\<close> and
  three assignments. A leaf tag on branch data is a \<open>TypeError\<close>, as is a branch tag on
  a list.
\<close>

fun decode_nodes :: "node_state list \<Rightarrow> KDTreeCore \<Rightarrow> py_error + KDTreeCore" where
  "decode_nodes [] self = Inr self"
| "decode_nodes ((type, data) # rest) self =
     (if type = LEAF then
        (case data of
           Inl ids \<Rightarrow> decode_nodes rest (snd (new_leaf ids self))
         | Inr branch \<Rightarrow> Inl TypeError)
      else
        (case data of
           Inl ids \<Rightarrow> Inl TypeError
         | Inr (split, cnt) \<Rightarrow>
             (let (nid, self1) = new_node self
              in decode_nodes rest
                   (set_node self1 nid
                      (\<lambda>n. n\<lparr>node_type := type, node_split := split, node_count := cnt\<rparr>)))))"

definition setstate :: "KDTreeCore \<Rightarrow> tree_state \<Rightarrow> py_error + KDTreeCore" where
  "setstate self state =
     (case state of
        (bnds, node_states, (max_depth_s, min_items_s, hit_cost_s, empty_bonus_s)) \<Rightarrow>
          (case decode_nodes node_states (reset (self\<lparr>bounds := bnds\<rparr>)) of
             Inl e \<Rightarrow> Inl e
           | Inr self' \<Rightarrow>
               Inr (self'\<lparr>max_depth := max_depth_s, min_items := min_items_s,
                          hit_cost := hit_cost_s, empty_bonus := empty_bonus_s\<rparr>)))"

subsection \<open>Traversal\<close>

text \<open>
  \<open>_hit_node\<close>, \<open>_hit_branch\<close> and the call of the hook \<open>_hit_leaf(id, ray, max_range)\<close>.
  The hook is a parameter, and \<open>_hit_branch\<close> takes the function it calls on a child
  (\<open>_hit_node\<close> on the same ray). The result is the value returned together with the calls of
  the hook in the order they were made, each as \<open>(id, max_range)\<close>. The first argument
  bounds the number of nested calls; the result is \<open>None\<close> when it does not suffice or
  a node index lies outside the array.
\<close>

definition hit_branch ::
  "(int \<Rightarrow> real \<Rightarrow> real \<Rightarrow> (bool \<times> (int \<times> real) list) option)
     \<Rightarrow> KDTreeCore \<Rightarrow> int \<Rightarrow> Ray \<Rightarrow> real \<Rightarrow> real \<Rightarrow> (bool \<times> (int \<times> real) list) option" where
  "hit_branch hit_node_rec t nid ray min_range max_range =
     (let axis = node_type (nodes t ! nat nid);
          split = node_split (nodes t ! nat nid);
          lower_id = nid + 1;
          upper_id = node_count (nodes t ! nat nid);
          origin_a = get_index (origin ray) axis;
          direction_a = vget_index (direction ray) axis
      in if direction_a = 0 then
           (if origin_a < split
            then hit_node_rec lower_id min_range max_range
            else hit_node_rec upper_id min_range max_range)
         else
           (let plane_distance = (split - origin_a) / direction_a;
                below_split = (origin_a < split \<or> (origin_a = split \<and> direction_a < 0));
                near_id = (if below_split then lower_id else upper_id);
                far_id = (if below_split then upper_id else lower_id)
            in if plane_distance > max_range \<or> plane_distance \<le> 0
               then hit_node_rec near_id min_range max_range
               else if plane_distance < min_range
               then hit_node_rec far_id min_range max_range
               else
                 (case hit_node_rec near_id min_range plane_distance of
                    None \<Rightarrow> None
                  | Some (is_hit, calls) \<Rightarrow>
                      if is_hit then Some (True, calls)
                      else
                        (case hit_node_rec far_id plane_distance max_range of
                           None \<Rightarrow> None
                         | Some (is_hit', calls') \<Rightarrow> Some (is_hit', calls @ calls')))))"

fun hit_node ::
  "nat \<Rightarrow> (int \<Rightarrow> Ray \<Rightarrow> real \<Rightarrow> bool) \<Rightarrow> KDTreeCore \<Rightarrow> int \<Rightarrow> Ray \<Rightarrow> real \<Rightarrow> real
     \<Rightarrow> (bool \<times> (int \<times> real) list) option" where
  "hit_node 0 hit_leaf t nid ray min_range max_range = None"
| "hit_node (Suc fuel) hit_leaf t nid ray min_range max_range =
     (if nid < 0 \<or> next_node t \<le> nid then None
      else if node_type (nodes t ! nat nid) = LEAF
      then Some (hit_leaf nid ray max_range, [(nid, max_range)])
      else hit_branch (\<lambda>child lo hi. hit_node fuel hit_leaf t child ray lo hi)
             t nid ray min_range max_range)"

text \<open>
  \<open>_hit(ray)\<close>, which \<open>hit(ray)\<close> returns: a miss of the bounds returns \<open>None\<close>, which the
  return type \<open>bint\<close> turns into false.
\<close>

definition hit ::
  "nat \<Rightarrow> (int \<Rightarrow> Ray \<Rightarrow> real \<Rightarrow> bool) \<Rightarrow> KDTreeCore \<Rightarrow> Ray \<Rightarrow> (bool \<times> (int \<times> real) list) option" where
  "hit fuel hit_leaf t ray =
     (case full_intersection (bounds t) ray of
        (is_hit, min_range, max_range) \<Rightarrow>
          if \<not> is_hit then Some (False, [])
          else hit_node fuel hit_leaf t ROOT_NODE ray min_range max_range)"

text \<open>
  \<open>_contains_node\<close>, \<open>_contains_branch\<close> and the call of the hook
  \<open>_contains_leaf(id, point)\<close>, which returns a list of ids or raises.
\<close>

fun contains_node ::
  "nat \<Rightarrow> (int \<Rightarrow> Point \<Rightarrow> py_error + int list) \<Rightarrow> KDTreeCore \<Rightarrow> int \<Rightarrow> Point
     \<Rightarrow> (py_error + int list) option" where
  "contains_node 0 contains_leaf t nid point = None"
| "contains_node (Suc fuel) contains_leaf t nid point =
     (if nid < 0 \<or> next_node t \<le> nid then None
      else if node_type (nodes t ! nat nid) = LEAF
      then Some (contains_leaf nid point)
      else
        (let axis = node_type (nodes t ! nat nid);
             split = node_split (nodes t ! nat nid);
             lower_id = nid + 1;
             upper_id = node_count (nodes t ! nat nid)
         in if get_index point axis < split
            then contains_node fuel contains_leaf t lower_id point
            else contains_node fuel contains_leaf t upper_id point))"

text \<open>
  A value of a Cython function declared to return \<open>list\<close>: a list, or \<open>None\<close> when the
  function ends without a \<open>return\<close> statement.
\<close>

datatype py_list = PyNone | PyList "int list"

text \<open>
  \<open>_contains(point)\<close>, which \<open>contains(point)\<close> returns. Outside the bounds it returns
  the empty list. Inside, it calls \<open>_contains_node\<close> and does not return what the call
  gives: an exception of the hook propagates, any list is dropped and the function ends
  with \<open>None\<close>.
\<close>

definition contains ::
  "nat \<Rightarrow> (int \<Rightarrow> Point \<Rightarrow> py_error + int list) \<Rightarrow> KDTreeCore \<Rightarrow> Point
     \<Rightarrow> (py_error + py_list) option" where
  "contains fuel contains_leaf t point =
     (if \<not> box_contains (bounds t) point then Some (Inr (PyList []))
      else
        (case contains_node fuel contains_leaf t ROOT_NODE point of
           None \<Rightarrow> None
         | Some (Inl e) \<Rightarrow> Some (Inl e)
         | Some (Inr ids) \<Rightarrow> Some (Inr PyNone)))"

text \<open>
  The wrapper class \<open>KDTree\<close>: its \<open>_hit_leaf\<close> and \<open>_contains_leaf\<close> hand the ids of
  the leaf to \<open>_hit_items\<close> and \<open>_contains_items\<close>, which a subclass supplies.
\<close>

definition KDTree_hit_leaf ::
  "(int list \<Rightarrow> Ray \<Rightarrow> real \<Rightarrow> bool) \<Rightarrow> KDTreeCore \<Rightarrow> int \<Rightarrow> Ray \<Rightarrow> real \<Rightarrow> bool" where
  "KDTree_hit_leaf hit_items t nid ray max_range =
     hit_items (leaf_items (nodes t ! nat nid)) ray max_range"

definition KDTree_contains_leaf ::
  "(int list \<Rightarrow> Point \<Rightarrow> py_error + int list) \<Rightarrow> KDTreeCore \<Rightarrow> int \<Rightarrow> Point
     \<Rightarrow> py_error + int list" where
  "KDTree_contains_leaf contains_items t nid point =
     contains_items (leaf_items (nodes t ! nat nid)) point"

subsection \<open>Order of the edge array\<close>

text \<open>
  The order of the edge array in two readings: on equal values, lower edges before upper
  edges, or upper edges before lower edges. \<open>edge_key\<close> is the pair that the first
  reading sorts by.
\<close>

definition edge_key :: "edge \<Rightarrow> real \<times> bool" where
  "edge_key e = (edge_value e, is_upper_edge e)"

definition sorted_lower_first :: "edge list \<Rightarrow> bool" where
  "sorted_lower_first es =
     sorted_wrt (\<lambda>a b. edge_value a < edge_value b
                    \<or> (edge_value a = edge_value b \<and> (is_upper_edge a \<longrightarrow> is_upper_edge b))) es"

definition sorted_upper_first :: "edge list \<Rightarrow> bool" where
  "sorted_upper_first es =
     sorted_wrt (\<lambda>a b. edge_value a < edge_value b
                    \<or> (edge_value a = edge_value b \<and> (is_upper_edge b \<longrightarrow> is_upper_edge a))) es"

text \<open>Two items that touch in the plane \<open>x = 1\<close>.\<close>

definition touching_lower_item :: Item where
  "touching_lower_item = \<lparr>item_id = 0, box = \<lparr>lower = \<lparr>px = 0, py = 0, pz = 0\<rparr>, upper = \<lparr>px = 1, py = 1, pz = 1\<rparr>\<rparr>\<rparr>"

definition touching_upper_item :: Item where
  "touching_upper_item = \<lparr>item_id = 1, box = \<lparr>lower = \<lparr>px = 1, py = 0, pz = 0\<rparr>, upper = \<lparr>px = 2, py = 1, pz = 1\<rparr>\<rparr>\<rparr>"

subsection \<open>Scenarios\<close>

text \<open>
  The scenario of the spec: three unit boxes along the x axis, at 0, 2 and 4, built with
  the default parameters. \<open>three_box_tree\<close> is the tree that
  \<open>__init__\<close> builds of them (\<open>three_box_build\<close> below).
\<close>

definition unit_box_at :: "real \<Rightarrow> BoundingBox" where
  "unit_box_at a = \<lparr>lower = \<lparr>px = a, py = 0, pz = 0\<rparr>, upper = \<lparr>px = a + 1, py = 1, pz = 1\<rparr>\<rparr>"

definition three_boxes :: "Item list" where
  "three_boxes = [\<lparr>item_id = 0, box = unit_box_at 0\<rparr>, \<lparr>item_id = 1, box = unit_box_at 2\<rparr>,
                  \<lparr>item_id = 2, box = unit_box_at 4\<rparr>]"

definition three_box_nodes :: "kdnode list" where
  "three_box_nodes =
     [\<lparr>node_type = 0, node_split = 2, node_count = 2, node_items = []\<rparr>,
      \<lparr>node_type = - 1, node_split = 0, node_count = 1, node_items = [0]\<rparr>,
      \<lparr>node_type = 0, node_split = 3, node_count = 4, node_items = []\<rparr>,
      \<lparr>node_type = - 1, node_split = 0, node_count = 1, node_items = [1]\<rparr>,
      \<lparr>node_type = - 1, node_split = 0, node_count = 1, node_items = [2]\<rparr>]"

definition three_box_tree :: KDTreeCore where
  "three_box_tree =
     \<lparr>nodes = three_box_nodes, allocated_nodes = 128,
      bounds = Some \<lparr>lower = \<lparr>px = 0, py = 0, pz = 0\<rparr>, upper = \<lparr>px = 5, py = 1, pz = 1\<rparr>\<rparr>,
      max_depth = 10, min_items = 1, hit_cost = 20, empty_bonus = 0.2\<rparr>"

text \<open>
  A \<open>_contains_items\<close> hook: the ids, among those of the leaf, of the items
  whose box contains the point.
\<close>

definition enclosing_items :: "Item list \<Rightarrow> int list \<Rightarrow> Point \<Rightarrow> py_error + int list" where
  "enclosing_items items ids point =
     Inr (filter (\<lambda>i. list_ex (\<lambda>item. item_id item = i \<and> box_contains (Some (box item)) point) items)
            ids)"

text \<open>
  The point \<open>(2.5, 0.5, 0.5)\<close> of the scenario.
\<close>

definition probe_point :: Point where
  "probe_point = \<lparr>px = 2.5, py = 0.5, pz = 0.5\<rparr>"

text \<open>
  A flat item in the plane \<open>x = 1\<close> and an item around it, with the tree that
  \<open>__init__\<close> builds of them under the default parameters
  (\<open>flat_build\<close> below).
\<close>

definition flat_item :: Item where
  "flat_item = \<lparr>item_id = 0, box = \<lparr>lower = \<lparr>px = 1, py = 0, pz = 0\<rparr>, upper = \<lparr>px = 1, py = 1, pz = 1\<rparr>\<rparr>\<rparr>"

definition wide_item :: Item where
  "wide_item = \<lparr>item_id = 1, box = \<lparr>lower = \<lparr>px = 0, py = 0, pz = 0\<rparr>, upper = \<lparr>px = 2, py = 1, pz = 1\<rparr>\<rparr>\<rparr>"

definition flat_tree :: KDTreeCore where
  "flat_tree =
     \<lparr>nodes = [\<lparr>node_type = 0, node_split = 1, node_count = 2, node_items = []\<rparr>,
               \<lparr>node_type = - 1, node_split = 0, node_count = 1, node_items = [1]\<rparr>,
               \<lparr>node_type = - 1, node_split = 0, node_count = 1, node_items = [1]\<rparr>],
      allocated_nodes = 128,
      bounds = Some \<lparr>lower = \<lparr>px = 0, py = 0, pz = 0\<rparr>, upper = \<lparr>px = 2, py = 1, pz = 1\<rparr>\<rparr>,
      max_depth = 9, min_items = 1, hit_cost = 20, empty_bonus = 0.2\<rparr>"

text \<open>
  A ray along the x axis through both items. It meets the flat item at distance 2 and the
  geometry of the second item at distance 2.5.
\<close>

definition axis_ray :: Ray where
  "axis_ray = \<lparr>origin = \<lparr>px = - 1, py = 0.5, pz = 0.5\<rparr>, direction = \<lparr>vx = 1, vy = 0, vz = 0\<rparr>\<rparr>"

definition item_distance :: "int \<Rightarrow> real option" where
  "item_distance i = (if i = 0 then Some 2 else if i = 1 then Some 2.5 else None)"

text \<open>
  A \<open>_hit_items\<close> hook that respects the range it is given: it reports a hit
  when an item of the leaf is met at a distance of at most \<open>max_range\<close>.
\<close>

definition hit_within :: "(int \<Rightarrow> real option) \<Rightarrow> int list \<Rightarrow> Ray \<Rightarrow> real \<Rightarrow> bool" where
  "hit_within distance ids ray max_range =
     list_ex (\<lambda>i. case distance i of None \<Rightarrow> False | Some d \<Rightarrow> d \<le> max_range) ids"

section \<open>The glass material\<close>






text \<open>
  \<open>Glass\<close>: the refractive index as a function of the wavelength (\<open>self.index.evaluate\<close>)
  and the cutoff. The transmission function is not used by the code.
\<close>

record Glass =
  index :: "real \<Rightarrow> real"
  cutoff :: real

















section \<open>Invariants of built trees\<close>

text \<open>
  What the build keeps true of every node: a leaf holds as many ids as its count says, and
  the type of a branch is an axis. \<open>split_known\<close> is the corresponding fact about the
  search of \<open>_split\<close>: once a split is known, its axis is one of the three.
\<close>

definition node_ok :: "kdnode \<Rightarrow> bool" where
  "node_ok n \<longleftrightarrow>
     (if node_type n = LEAF then node_count n = int (length (node_items n))
      else node_type n \<in> {0, 1, 2})"

definition split_known :: "search \<Rightarrow> bool" where
  "split_known s \<longleftrightarrow> is_leaf s \<or> best_axis s \<in> {0, 1, 2}"

text \<open>
  The layout of a built node array: the nodes from index \<open>i\<close> up to, and not including,
  index \<open>j\<close> form a subtree, which is a leaf alone, or a branch followed by its lower
  subtree and then, from the index stored in the branch, by its upper subtree.
\<close>

inductive subtree :: "kdnode list \<Rightarrow> nat \<Rightarrow> nat \<Rightarrow> bool" where
  leaf: "i < length ns \<Longrightarrow> node_type (ns ! i) = LEAF \<Longrightarrow> subtree ns i (Suc i)"
| branch: "i < length ns \<Longrightarrow> node_type (ns ! i) \<noteq> LEAF \<Longrightarrow> subtree ns (Suc i) k \<Longrightarrow>
           node_count (ns ! i) = int k \<Longrightarrow> subtree ns k j \<Longrightarrow> subtree ns i j"

section \<open>Properties\<close>

subsection \<open>Rounding to the nearest double\<close>

lemma round_even_int [simp]: "round_even (real_of_int k) = k"
  by (simp add: round_even_def)

lemma round_even_error: "\<bar>real_of_int (round_even m) - m\<bar> \<le> 1 / 2"
  unfolding round_even_def Let_def by (auto; linarith)

lemma round_even_ge: "real_of_int k \<le> m \<Longrightarrow> k \<le> round_even m"
  unfolding round_even_def Let_def by (auto simp: le_floor_iff; linarith)

lemma round_even_le: "m \<le> real_of_int k \<Longrightarrow> round_even m \<le> k"
proof -
  assume a: "m \<le> real_of_int k"
  have f: "\<lfloor>m\<rfloor> \<le> k" using a by (simp add: floor_le_iff)
  show ?thesis
  proof (cases "\<lfloor>m\<rfloor> = k")
    case True
    then have "m = real_of_int k" using a by linarith
    then show ?thesis by simp
  next
    case False
    with f have "\<lfloor>m\<rfloor> + 1 \<le> k" by simp
    then show ?thesis unfolding round_even_def Let_def using f by auto
  qed
qed

lemma quantum_pos [simp]: "0 < quantum x"
  by (simp add: quantum_def)

lemma abs_quantum [simp]: "\<bar>quantum x\<bar> = quantum x"
  by (simp add: quantum_def)

lemma abs_less_expo: "x \<noteq> 0 \<Longrightarrow> \<bar>x\<bar> < 2 powr (real_of_int (expo x) + 1)"
proof -
  assume "x \<noteq> 0"
  have "log 2 \<bar>x\<bar> < real_of_int \<lfloor>log 2 \<bar>x\<bar>\<rfloor> + 1" by linarith
  also have "\<dots> \<le> real_of_int (expo x) + 1" by (simp add: expo_def)
  finally have "2 powr (log 2 \<bar>x\<bar>) < 2 powr (real_of_int (expo x) + 1)" by simp
  with \<open>x \<noteq> 0\<close> show ?thesis by simp
qed

lemma expo_eqI:
  assumes "2 powr real_of_int e \<le> \<bar>x\<bar>" and "\<bar>x\<bar> < 2 powr (real_of_int e + 1)" and "- 1022 \<le> e"
  shows "expo x = e"
proof -
  have pos: "0 < \<bar>x\<bar>" using assms(1) by (smt (verit) powr_gt_zero)
  have "\<lfloor>log 2 \<bar>x\<bar>\<rfloor> = e"
    using assms(1,2) pos by (subst floor_log_eq_powr_iff) (simp_all add: add.commute)
  with assms(3) show ?thesis by (simp add: expo_def)
qed

lemma expo_le:
  assumes "x \<noteq> 0" and "\<bar>x\<bar> < 2 powr (real_of_int e + 1)" and "- 1022 \<le> e"
  shows "expo x \<le> e"
proof -
  have "log 2 \<bar>x\<bar> < real_of_int e + 1"
    using assms(1,2) by (simp add: log_less_iff)
  then have "\<lfloor>log 2 \<bar>x\<bar>\<rfloor> \<le> e" by linarith
  with assms(3) show ?thesis by (simp add: expo_def)
qed

lemma round_even_eqI:
  assumes "real_of_int K - 1 / 2 \<le> m" and "m < real_of_int K + 1 / 2" and "even K"
  shows "round_even m = K"
proof (cases "real_of_int K \<le> m")
  case True
  with assms(2) have "\<lfloor>m\<rfloor> = K" by linarith
  with assms(2) show ?thesis by (simp add: round_even_def Let_def)
next
  case False
  with assms(1) have f: "\<lfloor>m\<rfloor> = K - 1" by linarith
  have odd: "odd (K - 1)" using assms(3) by simp
  show ?thesis
    using assms(1) odd unfolding round_even_def Let_def f by auto
qed

lemma powr_int_nonneg: "0 \<le> i \<Longrightarrow> (2::real) powr real_of_int i = 2 ^ nat i"
  by (simp add: powr_real_of_int)

lemma dyadic_zero [simp]: "dyadic 0"
  unfolding dyadic_def by (auto intro: exI [of _ 0])

lemma fl_dyadic:
  assumes "fl x = Num y"
  shows "dyadic y"
proof (cases "x = 0")
  case True
  with assms show ?thesis by (simp add: fl_def)
next
  case False
  let ?q = "quantum x"
  let ?n = "round_even (x / ?q)"
  from assms False have y: "y = real_of_int ?n * ?q" and small: "\<bar>y\<bar> < 2 ^ 1024"
    by (auto simp: fl_def Let_def split: if_splits)
  define m where "m = x / ?q"
  have "\<bar>x\<bar> / ?q < 2 powr (real_of_int (expo x) + 1) / ?q"
    using abs_less_expo [OF False] by (simp add: divide_strict_right_mono)
  also have "\<dots> = 2 powr 53"
    by (simp add: quantum_def powr_diff [symmetric])
  finally have "\<bar>m\<bar> < 2 powr 53" by (simp add: m_def)
  then have m: "m \<le> real_of_int (2 ^ 53)" "real_of_int (- (2 ^ 53)) \<le> m" by simp_all
  have "?n \<le> 2 ^ 53" unfolding m_def [symmetric] using m(1) by (rule round_even_le)
  moreover have "- (2 ^ 53) \<le> ?n" unfolding m_def [symmetric] using m(2) by (rule round_even_ge)
  ultimately have n: "\<bar>?n\<bar> \<le> 2 ^ 53" by simp
  have j: "- 1074 \<le> expo x - 52" by (simp add: expo_def)
  have "y = real_of_int ?n * 2 powr real_of_int (expo x - 52)"
    using y by (simp add: quantum_def)
  with n j small show ?thesis unfolding dyadic_def by blast
qed

lemma multiple_of_quantum:
  assumes "x \<noteq> 0" and x: "x = real_of_int n * 2 powr real_of_int j"
    and n: "\<bar>n\<bar> < 2 ^ 53" and j: "- 1074 \<le> j"
  shows "\<exists>k. x = real_of_int k * quantum x"
proof -
  have "\<bar>x\<bar> = real_of_int \<bar>n\<bar> * 2 powr real_of_int j" by (simp add: x abs_mult)
  also have "\<dots> < 2 ^ 53 * 2 powr real_of_int j"
  proof (intro mult_strict_right_mono)
    from n have "real_of_int \<bar>n\<bar> < real_of_int (2 ^ 53)" by (simp only: of_int_less_iff)
    then show "real_of_int \<bar>n\<bar> < 2 ^ 53" by simp
  qed simp
  also have "\<dots> = 2 powr 53 * 2 powr real_of_int j" by simp
  also have "\<dots> = 2 powr (53 + real_of_int j)" by (rule powr_add [symmetric])
  also have "53 + real_of_int j = real_of_int (j + 52) + 1" by simp
  finally have "expo x \<le> j + 52" using assms(1) j by (intro expo_le) simp_all
  then have d: "0 \<le> j + 52 - expo x" by simp
  have "2 powr real_of_int j = 2 powr real_of_int (j + 52 - expo x) * quantum x"
    by (simp add: quantum_def powr_add [symmetric])
  also have "\<dots> = 2 ^ nat (j + 52 - expo x) * quantum x"
    using d by (simp only: powr_int_nonneg)
  finally have "x = real_of_int (n * 2 ^ nat (j + 52 - expo x)) * quantum x"
    by (simp add: x)
  then show ?thesis by blast
qed

lemma fl_of_dyadic:
  assumes "dyadic x"
  shows "fl x = Num x"
proof (cases "x = 0")
  case True
  then show ?thesis by (simp add: fl_def)
next
  case False
  from assms obtain n j where x: "x = real_of_int n * 2 powr real_of_int j"
    and n: "\<bar>n\<bar> \<le> 2 ^ 53" and j: "- 1074 \<le> j" and small: "\<bar>x\<bar> < 2 ^ 1024"
    unfolding dyadic_def by blast
  have "\<exists>k. x = real_of_int k * quantum x"
  proof (cases "\<bar>n\<bar> < 2 ^ 53")
    case True
    with False x j show ?thesis by (intro multiple_of_quantum)
  next
    case False
    with n have "\<bar>n\<bar> = 2 ^ 53" by simp
    then obtain n' where n': "n = 2 * n'" "\<bar>n'\<bar> = 2 ^ 52"
      by (cases "0 \<le> n") (auto intro: that [of "2 ^ 52"] that [of "- (2 ^ 52)"])
    have "2 * 2 powr real_of_int j = 2 powr real_of_int (j + 1)"
      by (simp add: powr_add)
    then have "x = real_of_int n' * 2 powr real_of_int (j + 1)"
      using x n'(1) by simp
    moreover have "\<bar>n'\<bar> < 2 ^ 53" using n'(2) by simp
    moreover have "- 1074 \<le> j + 1" using j by simp
    ultimately show ?thesis using \<open>x \<noteq> 0\<close> by (intro multiple_of_quantum)
  qed
  then obtain k where k: "x = real_of_int k * quantum x" by blast
  define q where "q = quantum x"
  have "0 < q" by (simp add: q_def)
  then have "x / q = real_of_int k" using k by (simp add: q_def [symmetric])
  then have "real_of_int (round_even (x / q)) * q = x"
    using k by (simp add: q_def [symmetric])
  then have "real_of_int (round_even (x / quantum x)) * quantum x = x"
    by (simp add: q_def)
  with False small show ?thesis by (simp add: fl_def Let_def)
qed

lemma dyadic_one_minus:
  assumes "dyadic x" and "1 / 2 \<le> x" and "x < 2 ^ 53"
  shows "dyadic (1 - x)"
proof -
  from assms(1) obtain n j where x: "x = real_of_int n * 2 powr real_of_int j"
    and n: "\<bar>n\<bar> \<le> 2 ^ 53" and j: "- 1074 \<le> j"
    unfolding dyadic_def by blast
  have small: "\<bar>1 - x\<bar> < 2 ^ 1024"
  proof -
    have "\<bar>1 - x\<bar> \<le> x" using assms(2) by simp
    also have "x < 2 ^ 53" by (rule assms(3))
    also have "(2::real) ^ 53 < 2 ^ 1024" by (rule power_strict_increasing) simp_all
    finally show ?thesis .
  qed
  have "\<exists>n' j'. 1 - x = real_of_int n' * 2 powr real_of_int j' \<and> \<bar>n'\<bar> \<le> 2 ^ 53 \<and> - 1074 \<le> j'"
  proof (cases "0 \<le> j")
    case True
    define N where "N = 1 - n * 2 ^ nat j"
    have xi: "x = real_of_int (n * 2 ^ nat j)" using True by (simp add: x powr_int_nonneg)
    then have "1 - x = real_of_int N" by (simp add: N_def)
    moreover have "\<bar>N\<bar> \<le> 2 ^ 53"
    proof -
      have "real_of_int (n * 2 ^ nat j) < real_of_int (2 ^ 53)" using xi assms(3) by simp
      then have "n * 2 ^ nat j < 2 ^ 53" by (simp only: of_int_less_iff)
      moreover have "0 < real_of_int (n * 2 ^ nat j)" using xi assms(2) by simp
      then have "0 < n * 2 ^ nat j" by (simp only: of_int_0_less_iff)
      ultimately show ?thesis by (simp add: N_def)
    qed
    ultimately have "1 - x = real_of_int N * 2 powr real_of_int 0 \<and> \<bar>N\<bar> \<le> 2 ^ 53 \<and> - 1074 \<le> (0::int)"
      by simp
    then show ?thesis by blast
  next
    case False
    define p where "p = (2::real) powr real_of_int j"
    have p: "0 < p" by (simp add: p_def)
    have one: "1 = real_of_int (2 ^ nat (- j)) * p"
    proof -
      have "2 powr real_of_int (- j) * p = 1"
        by (simp add: p_def powr_add [symmetric])
      moreover have "(2::real) powr real_of_int (- j) = 2 ^ nat (- j)"
        using False by (intro powr_int_nonneg) simp
      ultimately show ?thesis by simp
    qed
    define N where "N = 2 ^ nat (- j) - n"
    have eq: "1 - x = real_of_int N * p"
      using one by (simp add: N_def x p_def [symmetric] algebra_simps)
    have "\<bar>real_of_int N\<bar> * p = \<bar>1 - x\<bar>" using p by (simp add: eq abs_mult)
    also have "\<dots> \<le> x" using assms(2) by simp
    also have "\<dots> = real_of_int n * p" by (simp add: x p_def)
    finally have "\<bar>real_of_int N\<bar> \<le> real_of_int n" using p by simp
    then have "\<bar>N\<bar> \<le> n" by linarith
    with n have "\<bar>N\<bar> \<le> 2 ^ 53" by simp
    with eq j show ?thesis unfolding p_def by blast
  qed
  with small show ?thesis unfolding dyadic_def by blast
qed

lemma dyadic_one [simp]: "dyadic 1"
proof -
  have "(1::real) = real_of_int 1 * 2 powr real_of_int 0" by simp
  moreover have "\<bar>1::int\<bar> \<le> 2 ^ 53" "- 1074 \<le> (0::int)" by simp_all
  moreover have "\<bar>1::real\<bar> < 2 ^ 1024" by simp
  ultimately show ?thesis unfolding dyadic_def by blast
qed

lemma fl_one [simp]: "fl 1 = Num 1"
  by (rule fl_of_dyadic) simp

lemma fl_near_one:
  assumes "\<bar>s - 1\<bar> \<le> 2 powr (- 54)"
  shows "fl s = Num 1"
proof -
  have e54: "(2::real) powr (- 54) = 1 / 2 ^ 54" by (simp add: powr_minus_divide)
  from assms have lo: "1 - 1 / 2 ^ 54 \<le> s" and hi: "s \<le> 1 + 1 / 2 ^ 54"
    unfolding e54 abs_le_iff by linarith+
  have s0: "s \<noteq> 0" using lo by auto
  show ?thesis
  proof (cases "1 \<le> s")
    case True
    have "s < 2" using hi by simp
    then have "expo s = 0" using True by (intro expo_eqI) simp_all
    then have q: "quantum s = 1 / 2 ^ 52" by (simp add: quantum_def powr_minus_divide)
    have "round_even (s * 2 ^ 52) = 2 ^ 52"
    proof (rule round_even_eqI)
      show "real_of_int (2 ^ 52) - 1 / 2 \<le> s * 2 ^ 52" using True by simp
      show "s * 2 ^ 52 < real_of_int (2 ^ 52) + 1 / 2" using hi by simp
    qed simp
    with s0 show ?thesis by (simp add: fl_def Let_def q)
  next
    case False
    have "1 / 2 \<le> s" using lo by simp
    then have "expo s = - 1" using False by (intro expo_eqI) (simp_all add: powr_minus_divide)
    then have q: "quantum s = 1 / 2 ^ 53" by (simp add: quantum_def powr_minus_divide)
    have "round_even (s * 2 ^ 53) = 2 ^ 53"
    proof (rule round_even_eqI)
      show "real_of_int (2 ^ 53) - 1 / 2 \<le> s * 2 ^ 53" using lo by simp
      show "s * 2 ^ 53 < real_of_int (2 ^ 53) + 1 / 2" using False by simp
    qed simp
    with s0 show ?thesis by (simp add: fl_def Let_def q)
  qed
qed

lemma fl_below_one:
  assumes "1 / 2 < z" and "z < 1"
  shows "\<exists>y. fl z = Num y \<and> \<bar>y - z\<bar> \<le> 2 powr (- 54)"
proof -
  have e54: "(2::real) powr (- 54) = 1 / 2 ^ 54" by (simp add: powr_minus_divide)
  have "expo z = - 1" using assms by (intro expo_eqI) (simp_all add: powr_minus_divide)
  then have q: "quantum z = 1 / 2 ^ 53" by (simp add: quantum_def powr_minus_divide)
  define n where "n = round_even (z * 2 ^ 53)"
  define y where "y = real_of_int n / 2 ^ 53"
  have yK: "y * 2 ^ 53 = real_of_int n" by (simp add: y_def)
  have "\<bar>real_of_int n - z * 2 ^ 53\<bar> \<le> 1 / 2" unfolding n_def by (rule round_even_error)
  then have "real_of_int n - z * 2 ^ 53 \<le> 1 / 2" "- (1 / 2) \<le> real_of_int n - z * 2 ^ 53"
    unfolding abs_le_iff by linarith+
  with yK have "y - z \<le> 1 / 2 ^ 54" "- (1 / 2 ^ 54) \<le> y - z" by simp_all
  then have err: "\<bar>y - z\<bar> \<le> 1 / 2 ^ 54" unfolding abs_le_iff by linarith
  moreover have "(1::real) / 2 ^ 54 \<le> 1" by simp
  ultimately have "\<bar>y\<bar> < 2" using assms unfolding abs_le_iff abs_less_iff by linarith
  also have "(2::real) \<le> 2 ^ 1024" by simp
  finally have "\<not> 2 ^ 1024 \<le> \<bar>y\<bar>" by simp
  then have "fl z = Num y" using assms by (simp add: fl_def Let_def q y_def n_def)
  with err show ?thesis unfolding e54 by blast
qed

lemma fl_nonneg:
  assumes "0 \<le> x" and "fl x = Num y"
  shows "0 \<le> y"
proof (cases "x = 0")
  case True
  with assms show ?thesis by (simp add: fl_def)
next
  case False
  have "real_of_int 0 \<le> x / quantum x"
    using assms(1) quantum_pos [of x] by (simp add: divide_nonneg_pos)
  then have "0 \<le> round_even (x / quantum x)" by (rule round_even_ge)
  then have "0 \<le> real_of_int (round_even (x / quantum x))" by simp
  moreover have "0 \<le> quantum x" using quantum_pos [of x] by (rule less_imp_le)
  ultimately have "0 \<le> real_of_int (round_even (x / quantum x)) * quantum x"
    by (rule mult_nonneg_nonneg)
  moreover from assms(2) False have "y = real_of_int (round_even (x / quantum x)) * quantum x"
    by (auto simp: fl_def Let_def split: if_splits)
  ultimately show ?thesis by simp
qed

lemma dmul_Num:
  assumes "dmul a b = Num x"
  obtains u v where "a = Num u" and "b = Num v" and "fl (u * v) = Num x"
  using assms by (cases a; cases b) (auto split: if_splits)

lemma dadd_Num:
  assumes "dadd a b = Num x"
  obtains u v where "a = Num u" and "b = Num v" and "fl (u + v) = Num x"
  using assms by (cases a; cases b) auto

lemma dsquare_nonneg:
  assumes "dsquare a = Num x"
  shows "0 \<le> x"
proof -
  from assms obtain u v where "a = Num u" "a = Num v" and f: "fl (u * v) = Num x"
    unfolding dsquare_def by (rule dmul_Num)
  then have "u = v" by simp
  then have "0 \<le> u * v" by simp
  then show ?thesis using f by (rule fl_nonneg)
qed

lemma reflectivity_number:
  assumes "fst (fresnel ci ct n1 n2) = Num r"
  shows "dyadic r \<and> 0 \<le> r"
proof -
  let ?q1 = "dsquare (ddiv (dsub (dmul n1 ci) (dmul n2 ct)) (dadd (dmul n1 ci) (dmul n2 ct)))"
  let ?q2 = "dsquare (ddiv (dsub (dmul n1 ct) (dmul n2 ci)) (dadd (dmul n1 ct) (dmul n2 ci)))"
  from assms have "dmul (Num 0.5) (dadd ?q1 ?q2) = Num r"
    by (simp add: fresnel_def Let_def)
  then obtain u s where u: "Num 0.5 = Num u" and s: "dadd ?q1 ?q2 = Num s"
    and f: "fl (u * s) = Num r" by (rule dmul_Num)
  from s obtain a b where a: "?q1 = Num a" and b: "?q2 = Num b" and g: "fl (a + b) = Num s"
    by (rule dadd_Num)
  have "0 \<le> a" using a by (rule dsquare_nonneg)
  moreover have "0 \<le> b" using b by (rule dsquare_nonneg)
  ultimately have "0 \<le> a + b" by simp
  then have "0 \<le> s" using g by (rule fl_nonneg)
  moreover have "u = 1 / 2" using u by simp
  ultimately have "0 \<le> u * s" by simp
  then have "0 \<le> r" using f by (rule fl_nonneg)
  with fl_dyadic [OF f] show ?thesis by simp
qed

lemma one_minus_then_add:
  assumes "dyadic x" and "0 \<le> x" and "x < 2 ^ 53"
  shows "dadd (Num x) (dsub (Num 1) (Num x)) = Num 1"
proof -
  consider "x = 0" | "0 < x" "x < 1 / 2" | "1 / 2 \<le> x" using assms(2) by linarith
  then show ?thesis
  proof cases
    case 1
    then show ?thesis by (simp add: dsub_def)
  next
    case 2
    then have "1 / 2 < 1 - x" "1 - x < 1" by simp_all
    from fl_below_one [OF this] obtain y where y: "fl (1 - x) = Num y"
      and err: "\<bar>y - (1 - x)\<bar> \<le> 2 powr (- 54)" by blast
    from err have "\<bar>(x + y) - 1\<bar> \<le> 2 powr (- 54)" by (simp add: algebra_simps)
    then have "fl (x + y) = Num 1" by (rule fl_near_one)
    with y show ?thesis by (simp add: dsub_def)
  next
    case 3
    with assms have "dyadic (1 - x)" by (simp add: dyadic_one_minus)
    then have "fl (1 - x) = Num (1 - x)" by (rule fl_of_dyadic)
    then show ?thesis by (simp add: dsub_def)
  qed
qed

lemma not_a_number_sum:
  assumes "\<And>r. a \<noteq> Num r"
  shows "dadd a (dsub (Num 1) a) = NaN"
  using assms by (cases a) (auto simp: dsub_def)

lemma dyadic_intI:
  assumes "\<bar>n\<bar> \<le> 2 ^ 53" and "- 1074 \<le> j"
    and "\<bar>real_of_int n * 2 powr real_of_int j\<bar> < 2 ^ 1024"
  shows "dyadic (real_of_int n * 2 powr real_of_int j)"
  using assms unfolding dyadic_def by blast

lemma fl_small_values:
  "fl 0 = Num 0" "fl 2 = Num 2" "fl 3 = Num 3" "fl (- 1) = Num (- 1)" "fl (- 2) = Num (- 2)" "fl 4 = Num 4" "fl (- (1 / 2)) = Num (- (1 / 2))"
  "fl (1 / 4) = Num (1 / 4)" "fl (1 / 2) = Num (1 / 2)" "fl (3 / 4) = Num (3 / 4)"
proof -
  show "fl 2 = Num 2" using fl_of_dyadic [OF dyadic_intI [of 2 0]] by simp
  show "fl 0 = Num 0" by (simp add: fl_def)
  show "fl (- 1) = Num (- 1)" using fl_of_dyadic [OF dyadic_intI [of "- 1" 0]] by simp
  show "fl 3 = Num 3" using fl_of_dyadic [OF dyadic_intI [of 3 0]] by simp
  show "fl (- 2) = Num (- 2)" using fl_of_dyadic [OF dyadic_intI [of "- 2" 0]] by simp
  show "fl 4 = Num 4" using fl_of_dyadic [OF dyadic_intI [of 4 0]] by simp
  show "fl (- (1 / 2)) = Num (- (1 / 2))"
    using fl_of_dyadic [OF dyadic_intI [of "- 1" "- 1"]] by (simp add: powr_minus_divide)
  show "fl (1 / 4) = Num (1 / 4)"
    using fl_of_dyadic [OF dyadic_intI [of 1 "- 2"]] by (simp add: powr_minus_divide)
  show "fl (1 / 2) = Num (1 / 2)"
    using fl_of_dyadic [OF dyadic_intI [of 1 "- 1"]] by (simp add: powr_minus_divide)
  show "fl (3 / 4) = Num (3 / 4)"
    using fl_of_dyadic [OF dyadic_intI [of 3 "- 2"]] by (simp add: powr_minus_divide)
qed

lemma fresnel_quarter:
  "fresnel (Num 1) (Num 1) (Num 1) (Num 3) = (Num (1 / 4), Num (3 / 4))"
  by (simp add: fresnel_def Let_def dsub_def dsquare_def fl_small_values)

lemma fl_62_bits:
  assumes "2 ^ 61 \<le> \<bar>x\<bar>" and "\<bar>x\<bar> < 2 ^ 62" and "round_even (x / 512) = K"
  shows "fl x = Num (real_of_int K * 512)"
proof -
  have "expo x = 61" using assms(1,2) by (intro expo_eqI) simp_all
  then have q: "quantum x = 512" by (simp add: quantum_def)
  have x0: "x \<noteq> 0" using assms(1) by auto
  have "\<bar>real_of_int K - x / 512\<bar> \<le> 1 / 2"
    using round_even_error [of "x / 512"] by (simp add: assms(3))
  then have "\<bar>real_of_int K * 512\<bar> \<le> \<bar>x\<bar> + 256"
    by (simp add: abs_if field_simps split: if_splits)
  also have "\<dots> < 2 ^ 62 + 256" using assms(2) by simp
  also have "(2::real) ^ 62 + 256 \<le> 2 ^ 63" by simp
  also have "(2::real) ^ 63 \<le> 2 ^ 1024" by (rule power_increasing) simp_all
  finally have "\<not> 2 ^ 1024 \<le> \<bar>real_of_int K * 512\<bar>" by simp
  with x0 show ?thesis by (simp add: fl_def Let_def q assms(3))
qed

lemma fl_large_values:
  "fl (- (1 - 1 / 2 ^ 30)) = Num (- (1 - 1 / 2 ^ 30))"
  "fl (1 + (1 - 1 / 2 ^ 30)) = Num (2147483647 / 2 ^ 30)"
  "fl (- (2147483647 / 2 ^ 30)) = Num (- (2147483647 / 2 ^ 30))"
  "fl (1 / 2 ^ 30) = Num (1 / 2 ^ 30)"
  "fl 2147483647 = Num 2147483647"
  "fl (- 2147483647) = Num (- 2147483647)"
  "fl 4611686014132420609 = Num 4611686014132420608"
  "fl 9223372028264841216 = Num 9223372028264841216"
  "fl 4611686014132420608 = Num 4611686014132420608"
  "fl (- 4611686014132420607) = Num (- 4611686014132420608)"
proof -
  show "fl (- (1 - 1 / 2 ^ 30)) = Num (- (1 - 1 / 2 ^ 30))"
    using fl_of_dyadic [OF dyadic_intI [of "- 1073741823" "- 30"]]
    by (simp add: powr_minus_divide)
  show "fl (1 + (1 - 1 / 2 ^ 30)) = Num (2147483647 / 2 ^ 30)"
    using fl_of_dyadic [OF dyadic_intI [of 2147483647 "- 30"]]
    by (simp add: powr_minus_divide)
  show "fl (- (2147483647 / 2 ^ 30)) = Num (- (2147483647 / 2 ^ 30))"
    using fl_of_dyadic [OF dyadic_intI [of "- 2147483647" "- 30"]]
    by (simp add: powr_minus_divide)
  show "fl (1 / 2 ^ 30) = Num (1 / 2 ^ 30)"
    using fl_of_dyadic [OF dyadic_intI [of 1 "- 30"]] by (simp add: powr_minus_divide)
  show "fl 2147483647 = Num 2147483647"
    using fl_of_dyadic [OF dyadic_intI [of 2147483647 0]] by simp
  show "fl (- 2147483647) = Num (- 2147483647)"
    using fl_of_dyadic [OF dyadic_intI [of "- 2147483647" 0]] by simp
  have "round_even (4611686014132420609 / 512) = 9007199246352384"
    by (rule round_even_eqI) simp_all
  from fl_62_bits [OF _ _ this] show "fl 4611686014132420609 = Num 4611686014132420608"
    by simp
  show "fl 9223372028264841216 = Num 9223372028264841216"
    using fl_of_dyadic [OF dyadic_intI [of 1073741823 33]] by simp
  show "fl 4611686014132420608 = Num 4611686014132420608"
    using fl_of_dyadic [OF dyadic_intI [of 1073741823 32]] by simp
  have "round_even (- 4611686014132420607 / 512) = - 9007199246352384"
    by (rule round_even_eqI) simp_all
  from fl_62_bits [OF _ _ this] show "fl (- 4611686014132420607) = Num (- 4611686014132420608)"
    by simp
qed

lemma fresnel_large_reflectivity:
  "fresnel (Num 1) (Num (- (1 - 1 / 2 ^ 30))) (Num 1) (Num 1)
     = (Num 4611686014132420608, Num (- 4611686014132420608))"
  "dadd (Num 4611686014132420608) (Num (- 4611686014132420608)) = Num 0"
proof -
  show "fresnel (Num 1) (Num (- (1 - 1 / 2 ^ 30))) (Num 1) (Num 1)
     = (Num 4611686014132420608, Num (- 4611686014132420608))"
    using fl_large_values
    by (simp add: fresnel_def Let_def dsub_def dsquare_def)
  show "dadd (Num 4611686014132420608) (Num (- 4611686014132420608)) = Num 0"
    by (simp add: fl_def)
qed

lemma fresnel_opposite_cosines:
  "fresnel (Num 1) (Num (- 1)) (Num 1) (Num 1) = (PInf, NInf)"
  by (simp add: fresnel_def Let_def dsub_def dsquare_def fl_small_values)

subsection \<open>Fresnel coefficients\<close>

text \<open>
  Claim C5 (amended). For every input \<open>(c1, ct, n1, n2)\<close> for which the reflectivity
  \<open>r\<close> computed by \<open>Glass._fresnel\<close> is a number (neither NaN nor an infinity) below
  \<open>2 ^ 53\<close>, which includes every reflectivity between 0 and 1, the reflectivity and
  the transmission \<open>t\<close> add up to exactly one in double arithmetic.
\<close>

theorem fresnel_energy_conservation:
  assumes "fst (fresnel ci ct n1 n2) = Num r" and "r < 2 ^ 53"
  shows "dadd (fst (fresnel ci ct n1 n2)) (snd (fresnel ci ct n1 n2)) = Num 1"
proof -
  from reflectivity_number [OF assms(1)] have "dyadic r" "0 \<le> r" by simp_all
  then have "dadd (Num r) (dsub (Num 1) (Num r)) = Num 1"
    using assms(2) by (rule one_minus_then_add)
  moreover have "snd (fresnel ci ct n1 n2) = dsub (Num 1) (fst (fresnel ci ct n1 n2))"
    by (simp add: fresnel_def Let_def)
  ultimately show ?thesis using assms(1) by simp
qed

theorem fresnel_energy_conservation_witness:
  "fst (fresnel (Num 1) (Num 1) (Num 1) (Num 3)) = Num (1 / 4)
   \<and> (1 / 4 :: real) < 2 ^ 53
   \<and> dadd (fst (fresnel (Num 1) (Num 1) (Num 1) (Num 3)))
        (snd (fresnel (Num 1) (Num 1) (Num 1) (Num 3))) = Num 1"
proof -
  have r: "fst (fresnel (Num 1) (Num 1) (Num 1) (Num 3)) = Num (1 / 4)"
    by (simp add: fresnel_quarter)
  have b: "(1 / 4 :: real) < 2 ^ 53" by simp
  from fresnel_energy_conservation [OF r b] r b show ?thesis by blast
qed

text \<open>
  Claim C5 as stated (for every input) fails. With \<open>c1 = ct = 0\<close> both denominators are
  zero, both quotients are \<open>0 / 0\<close>, and \<open>r\<close>, \<open>t\<close> and \<open>r + t\<close> are NaN. With \<open>c1 = 1\<close>,
  \<open>ct = - (1 - 1 / 2 ^ 30)\<close> and equal indices the reflectivity is \<open>2 ^ 62 - 2 ^ 32\<close>, the
  subtraction \<open>1 - r\<close> rounds to \<open>- r\<close>, and \<open>r + t\<close> is zero.
\<close>

theorem fresnel_sum_not_one:
  "dadd (fst (fresnel (Num 0) (Num 0) (Num 1) (Num 1.5)))
        (snd (fresnel (Num 0) (Num 0) (Num 1) (Num 1.5))) = NaN
   \<and> dadd (fst (fresnel (Num 1) (Num (- (1 - 1 / 2 ^ 30))) (Num 1) (Num 1)))
          (snd (fresnel (Num 1) (Num (- (1 - 1 / 2 ^ 30))) (Num 1) (Num 1))) = Num 0"
proof -
  have "dadd (fst (fresnel (Num 0) (Num 0) (Num 1) (Num 1.5)))
          (snd (fresnel (Num 0) (Num 0) (Num 1) (Num 1.5))) = NaN"
    by (simp add: fresnel_def Let_def dsub_def dsquare_def fl_def)
  moreover have "dadd (fst (fresnel (Num 1) (Num (- (1 - 1 / 2 ^ 30))) (Num 1) (Num 1)))
          (snd (fresnel (Num 1) (Num (- (1 - 1 / 2 ^ 30))) (Num 1) (Num 1))) = Num 0"
    unfolding fresnel_large_reflectivity(1) fst_conv snd_conv
    by (rule fresnel_large_reflectivity(2))
  ultimately show ?thesis by (rule conjI)
qed

subsection \<open>The edge comparator\<close>

text \<open>
  Claim C9. The comparator \<open>_edge_compare\<close> never returns 0, and on two coincident edges
  of the same kind it gives the same answer in both argument orders: \<open>-1\<close> both ways for
  two upper edges of equal value, \<open>+1\<close> both ways for two lower edges of equal value. It is
  therefore not antisymmetric.
\<close>

theorem edge_compare_not_antisymmetric:
  "edge_compare a b \<noteq> 0
   \<and> (edge_value a = edge_value b \<and> is_upper_edge a \<and> is_upper_edge b
        \<longrightarrow> edge_compare a b = - 1 \<and> edge_compare b a = - 1)
   \<and> (edge_value a = edge_value b \<and> \<not> is_upper_edge a \<and> \<not> is_upper_edge b
        \<longrightarrow> edge_compare a b = 1 \<and> edge_compare b a = 1)"
  by (simp add: edge_compare_def)

theorem edge_compare_not_antisymmetric_witness:
  "edge_compare \<lparr>is_upper_edge = True, edge_value = 1\<rparr> \<lparr>is_upper_edge = True, edge_value = 1\<rparr> = - 1
   \<and> edge_compare \<lparr>is_upper_edge = False, edge_value = 1\<rparr> \<lparr>is_upper_edge = False, edge_value = 1\<rparr> = 1
   \<and> edge_compare \<lparr>is_upper_edge = True, edge_value = 1\<rparr> \<lparr>is_upper_edge = False, edge_value = 2\<rparr> \<noteq> 0"
  using edge_compare_not_antisymmetric
          [of "\<lparr>is_upper_edge = True, edge_value = 1\<rparr>" "\<lparr>is_upper_edge = True, edge_value = 1\<rparr>"]
        edge_compare_not_antisymmetric
          [of "\<lparr>is_upper_edge = False, edge_value = 1\<rparr>" "\<lparr>is_upper_edge = False, edge_value = 1\<rparr>"]
        edge_compare_not_antisymmetric
          [of "\<lparr>is_upper_edge = True, edge_value = 1\<rparr>" "\<lparr>is_upper_edge = False, edge_value = 2\<rparr>"]
  by simp

subsection \<open>Spectral functions\<close>

lemma cache_ok_init: "cache_ok v (ConstantSF_init v)"
  by (simp add: cache_ok_def ConstantSF_init_def)

lemma generate_samples_ok:
  assumes "const_value self = v" and "generate_samples self lo hi n = Inr (s, self')"
  shows "cache_ok v self' \<and> samples s = Some (replicate (nat n) v) \<and> \<not> fast_sample s
         \<and> num_samples s = n \<and> cached_samples self' = Some s \<and> is_shaped s lo hi n"
  using assms
  by (auto simp: generate_samples_def new_sampledsf_def SampledSF_construct_def cache_ok_def Let_def
        is_shaped_def split: if_splits)

lemma sample_multiple_ok:
  assumes "cache_ok v self" and "ConstantSF_sample_multiple self lo hi n = Inr (s, self')"
  shows "cache_ok v self' \<and> samples s = Some (replicate (nat n) v) \<and> \<not> fast_sample s
         \<and> cached_samples self' = Some s \<and> is_shaped s lo hi n"
proof (cases "cached_samples self")
  case None
  with assms show ?thesis
    using generate_samples_ok [of self v lo hi n s self']
    by (simp add: ConstantSF_sample_multiple_def cache_ok_def)
next
  case (Some c)
  show ?thesis
  proof (cases "is_shaped c lo hi n")
    case True
    with Some assms show ?thesis
      by (auto simp: ConstantSF_sample_multiple_def cache_ok_def is_shaped_def)
  next
    case False
    with Some assms show ?thesis
      using generate_samples_ok [of self v lo hi n s self']
      by (simp add: ConstantSF_sample_multiple_def cache_ok_def)
  qed
qed

lemma cache_ok_after_requests:
  "cache_ok v self \<Longrightarrow> cache_ok v (after_requests self reqs)"
proof (induction reqs arbitrary: self)
  case Nil
  then show ?case by simp
next
  case (Cons r reqs)
  obtain lo hi n where r: "r = (lo, hi, n)" by (cases r) auto
  show ?case
  proof (cases "ConstantSF_sample_multiple self lo hi n")
    case (Inl e)
    with Cons r show ?thesis by simp
  next
    case (Inr p)
    obtain s self' where p: "p = (s, self')" by (cases p) auto
    from Inr p Cons.prems have "cache_ok v self'"
      using sample_multiple_ok [of v self lo hi n s self'] by simp
    with Cons.IH Inr p r show ?thesis by simp
  qed
qed

lemma sample_multiple_returns:
  assumes "0 \<le> n"
  shows "\<exists>s self'. ConstantSF_sample_multiple self lo hi n = Inr (s, self')"
  using assms
  by (auto simp: ConstantSF_sample_multiple_def generate_samples_def new_sampledsf_def Let_def
        split: option.splits)

lemma cached_request_again:
  assumes "cached_samples self = Some s" and "is_shaped s lo hi n"
  shows "ConstantSF_sample_multiple self lo hi n = Inr (s, self)"
  using assms by (simp add: ConstantSF_sample_multiple_def)

text \<open>
  Claim C8. For a \<open>ConstantSF(v)\<close>, after any sequence of earlier requests, a request
  \<open>sample_multiple(lo, hi, n)\<close> with \<open>n \<ge> 1\<close> and \<open>0 < lo < hi\<close> returns a \<open>SampledSF\<close>
  of \<open>n\<close> bins that all equal \<open>v\<close>; this covers the object generated afresh and the
  object served from the cache, and the same request repeated is answered from the cache
  with that very object.
\<close>

theorem constant_sf_bins:
  assumes "1 \<le> n" and "0 < lo" and "lo < hi"
  shows "\<exists>s self'.
           ConstantSF_sample_multiple (after_requests (ConstantSF_init v) reqs) lo hi n
             = Inr (s, self')
           \<and> samples s = Some (replicate (nat n) v)
           \<and> ConstantSF_sample_multiple self' lo hi n = Inr (s, self')"
proof -
  let ?self = "after_requests (ConstantSF_init v) reqs"
  have ok: "cache_ok v ?self"
    by (rule cache_ok_after_requests [OF cache_ok_init])
  from assms(1) obtain s self' where
    r: "ConstantSF_sample_multiple ?self lo hi n = Inr (s, self')"
    using sample_multiple_returns [of n ?self lo hi] by auto
  from sample_multiple_ok [OF ok r] cached_request_again [of self' s lo hi n] r
  show ?thesis by auto
qed

theorem constant_sf_bins_witness:
  "(1::int) \<le> 3 \<and> (0::real) < 400 \<and> (400::real) < 700 \<and>
   (\<exists>s self'.
      ConstantSF_sample_multiple (after_requests (ConstantSF_init 2) [(400, 700, 3)]) 400 700 3
        = Inr (s, self')
      \<and> samples s = Some [2, 2, 2]
      \<and> ConstantSF_sample_multiple self' 400 700 3 = Inr (s, self'))"
  using constant_sf_bins [of 3 400 700 2 "[(400, 700, 3)]"]
  by (simp add: numeral_3_eq_3)

lemma fill_bins_flag:
  "fill_bins interpolate integrate fast w smp lo n s = Inr s' \<Longrightarrow> fast_sample s' = fast_sample s"
  by (auto simp: fill_bins_def split: sum.splits if_splits)

lemma new_sampledsf_flag: "new_sampledsf lo hi n = Inr s \<Longrightarrow> \<not> fast_sample s"
  by (auto simp: new_sampledsf_def SampledSF_construct_def split: if_splits)

lemma interpolated_never_fast:
  "InterpolatedSF_sample_multiple interpolate integrate self lo hi n = Inr s \<Longrightarrow> \<not> fast_sample s"
  by (auto simp: InterpolatedSF_sample_multiple_def split: option.splits sum.splits if_splits
        dest!: fill_bins_flag new_sampledsf_flag)

lemma sampled_never_fast:
  "SampledSF_sample_multiple interpolate integrate self lo hi n = Inr (s, self') \<Longrightarrow>
     (if is_shaped self lo hi n then s = self else \<not> fast_sample s)"
  by (auto simp: SampledSF_sample_multiple_def Let_def split: option.splits sum.splits if_splits
        dest!: fill_bins_flag new_sampledsf_flag)

text \<open>
  Claim C10. Every \<open>SampledSF\<close> produced by a \<open>sample_multiple\<close> call has
  \<open>fast_sample = False\<close>, whatever the flag of the function sampled: for
  \<open>InterpolatedSF\<close>, for \<open>SampledSF\<close> when it re-samples (when the requested shape
  matches it returns \<open>self\<close> itself), and for \<open>ConstantSF\<close> on the fresh and on the
  cached path.
\<close>

theorem sample_multiple_never_fast:
  "(InterpolatedSF_sample_multiple interpolate integrate isf lo hi n = Inr s1 \<longrightarrow> \<not> fast_sample s1)
   \<and> (SampledSF_sample_multiple interpolate integrate ssf lo hi n = Inr (s2, ssf') \<longrightarrow>
        (if is_shaped ssf lo hi n then s2 = ssf else \<not> fast_sample s2))
   \<and> (ConstantSF_sample_multiple (after_requests (ConstantSF_init v) reqs) lo hi n = Inr (s3, csf')
        \<longrightarrow> \<not> fast_sample s3)"
  using interpolated_never_fast [of interpolate integrate isf lo hi n s1]
        sampled_never_fast [of interpolate integrate ssf lo hi n s2 ssf']
        sample_multiple_ok [OF cache_ok_after_requests [OF cache_ok_init],
          of v reqs lo hi n s3 csf']
  by blast

theorem sample_multiple_never_fast_witness:
  "(\<exists>s. InterpolatedSF_sample_multiple (\<lambda>w smp x. Inr 1) (\<lambda>w smp a b. Inr (b - a))
          \<lparr>isf_wavelengths = Some \<lparr>shape = [2], elems = [400, 700]\<rparr>,
           isf_samples = Some \<lparr>shape = [2], elems = [1, 1]\<rparr>,
           isf_fast_sample = True\<rparr> 400 700 2 = Inr s
        \<and> \<not> fast_sample s)
   \<and> (\<exists>s self'. SampledSF_sample_multiple (\<lambda>w smp x. Inr 1) (\<lambda>w smp a b. Inr (b - a))
          (SampledSF_construct 400 700 2 True) 400 700 4 = Inr (s, self')
        \<and> \<not> is_shaped (SampledSF_construct 400 700 2 True) 400 700 4
        \<and> \<not> fast_sample s)
   \<and> (\<exists>s self'. ConstantSF_sample_multiple (after_requests (ConstantSF_init 2) [(400, 700, 2)])
          400 700 2 = Inr (s, self')
        \<and> \<not> fast_sample s)"
proof -
  let ?I = "\<lambda>(w::real list) (smp::real list) (x::real). Inr 1 :: py_error + real"
  let ?G = "\<lambda>(w::real list) (smp::real list) (a::real) (b::real). Inr (b - a) :: py_error + real"
  let ?isf = "\<lparr>isf_wavelengths = Some \<lparr>shape = [2], elems = [400, 700]\<rparr>,
           isf_samples = Some \<lparr>shape = [2], elems = [1, 1]\<rparr>,
           isf_fast_sample = True\<rparr>"
  have n2: "[0..<2] = [0, 1::nat]" and n4: "[0..<4] = [0, 1, 2, 3::nat]"
    by (simp_all add: upt_rec)
  obtain s1 where r1: "InterpolatedSF_sample_multiple ?I ?G ?isf 400 700 2 = Inr s1"
    by (simp add: InterpolatedSF_sample_multiple_def shape0_def new_sampledsf_def fill_bins_def
          SampledSF_construct_def n2)
  obtain s2 ssf' where
    r2: "SampledSF_sample_multiple ?I ?G (SampledSF_construct 400 700 2 True) 400 700 4 = Inr (s2, ssf')"
    by (simp add: SampledSF_sample_multiple_def is_shaped_def new_sampledsf_def fill_bins_def
          SampledSF_construct_def n4 Let_def)
  have shaped: "\<not> is_shaped (SampledSF_construct 400 700 2 True) 400 700 4"
    by (simp add: is_shaped_def SampledSF_construct_def)
  obtain s3 csf' where
    r3: "ConstantSF_sample_multiple (after_requests (ConstantSF_init 2) [(400, 700, 2)])
           400 700 2 = Inr (s3, csf')"
    using sample_multiple_returns [of 2] by force
  have f1: "\<not> fast_sample s1"
    using sample_multiple_never_fast [of ?I ?G ?isf 400 700 2 s1] r1 by simp
  have f2: "\<not> fast_sample s2"
    using sample_multiple_never_fast
            [of ?I ?G _ 400 700 4 _ "SampledSF_construct 400 700 2 True" s2 ssf'] r2 shaped
    by simp
  have f3: "\<not> fast_sample s3"
    using sample_multiple_never_fast [of _ _ _ 400 700 2 _ _ _ _ 2 "[(400, 700, 2)]" s3 csf'] r3
    by simp
  show ?thesis
    apply (intro conjI)
    subgoal using r1 f1 by (intro exI [of _ s1]) simp
    subgoal using r2 f2 shaped by (intro exI [of _ s2] exI [of _ ssf']) simp
    subgoal using r3 f3 by (intro exI [of _ s3] exI [of _ csf']) simp
    done
qed

text \<open>
  Claim C6. The constructors of the spectral functions are evaluated on invalid arguments.
  \<open>SampledSF(400, 700, 0)\<close> ends in a \<open>TypeError\<close>, not in the \<open>ValueError\<close> of the
  other two checks; \<open>InterpolatedSF\<close> accepts a two-dimensional sample array whose first
  extent matches, and answers a zero-dimensional one with an \<open>IndexError\<close>.
\<close>

theorem spectral_constructors_on_invalid_arguments:
  "SampledSF_init 400 700 0 False = Inl TypeError
   \<and> SampledSF_init 0 700 10 False = Inl ValueError
   \<and> SampledSF_init 700 400 10 False = Inl ValueError
   \<and> InterpolatedSF_init \<lparr>shape = [2], elems = [400, 700]\<rparr> \<lparr>shape = [2, 2], elems = [1, 2, 3, 4]\<rparr> False
       = Inr \<lparr>isf_wavelengths = Some \<lparr>shape = [2], elems = [400, 700]\<rparr>,
              isf_samples = Some \<lparr>shape = [2, 2], elems = [1, 2, 3, 4]\<rparr>,
              isf_fast_sample = False\<rparr>
   \<and> InterpolatedSF_init \<lparr>shape = [2], elems = [400, 700]\<rparr> \<lparr>shape = [], elems = [1]\<rparr> False
       = Inl IndexError"
  by (simp add: SampledSF_init_def InterpolatedSF_init_def)

subsection \<open>The edge array\<close>

lemma edge_key_le:
  "edge_key a \<le> edge_key b \<longleftrightarrow>
     edge_value a < edge_value b \<or> (edge_value a = edge_value b \<and> (is_upper_edge a \<longrightarrow> is_upper_edge b))"
  by (auto simp: edge_key_def less_eq_prod_def)

lemma inj_edge_key: "inj edge_key"
  by (rule injI) (simp add: edge_key_def)

lemma edge_compare_neg:
  "edge_compare a b < 0 \<longleftrightarrow>
     edge_value a < edge_value b \<or> (edge_value a = edge_value b \<and> is_upper_edge b)"
  by (simp add: edge_compare_def)

lemma edge_compare_key: "edge_compare a b < 0 \<Longrightarrow> edge_key a \<le> edge_key b"
  by (auto simp: edge_compare_neg edge_key_le)

lemma edge_compare_key': "\<not> edge_compare a b < 0 \<Longrightarrow> edge_key b \<le> edge_key a"
  by (auto simp: edge_compare_neg edge_key_le)

lemma set_insert_by: "set (insert_by cmp e es) = insert e (set es)"
  by (induction es) auto

lemma mset_insert_by: "mset (insert_by cmp e es) = add_mset e (mset es)"
  by (induction es) auto

lemma mset_qsort: "mset (qsort cmp es) = mset es"
  by (induction es) (simp_all add: qsort_def mset_insert_by)

lemma sorted_insert_by:
  "sorted (map edge_key es) \<Longrightarrow> sorted (map edge_key (insert_by edge_compare e es))"
proof (induction es)
  case Nil
  then show ?case by simp
next
  case (Cons e' es)
  show ?case
  proof (cases "edge_compare e e' < 0")
    case True
    then have "edge_key e \<le> edge_key e'" by (rule edge_compare_key)
    with True Cons.prems show ?thesis by (auto intro: order_trans)
  next
    case False
    then have "edge_key e' \<le> edge_key e" by (rule edge_compare_key')
    with False Cons show ?thesis by (auto simp: set_insert_by)
  qed
qed

lemma sorted_qsort: "sorted (map edge_key (qsort edge_compare es))"
proof (induction es)
  case Nil
  then show ?case by (simp add: qsort_def)
next
  case (Cons e es)
  then show ?case using sorted_insert_by [of "qsort edge_compare es" e] by (simp add: qsort_def)
qed

lemma edge_order_unique:
  assumes "mset ys = mset es"
    and "sorted_wrt (\<lambda>a b. a = b \<or> edge_compare a b < 0) ys"
  shows "ys = qsort edge_compare es"
proof -
  have "sorted_wrt (\<lambda>a b. edge_key a \<le> edge_key b) ys"
    using assms(2) by (rule sorted_wrt_mono_rel [rotated]) (auto dest: edge_compare_key)
  then have s1: "sorted (map edge_key ys)" by (simp add: sorted_map)
  have "mset (map edge_key ys) = mset (map edge_key (qsort edge_compare es))"
    using assms(1) by (simp add: mset_qsort)
  with s1 sorted_qsort [of es] have "map edge_key ys = map edge_key (qsort edge_compare es)"
    by (metis properties_for_sort)
  then show ?thesis using inj_edge_key by (simp add: inj_map_eq_map)
qed

lemma get_edges_sorted_key: "sorted (map edge_key (get_edges items axis))"
  by (simp add: get_edges_def sorted_qsort)

lemma get_edges_touching:
  "get_edges [touching_lower_item, touching_upper_item] 0 =
     [\<lparr>is_upper_edge = False, edge_value = 0\<rparr>, \<lparr>is_upper_edge = False, edge_value = 1\<rparr>,
      \<lparr>is_upper_edge = True, edge_value = 1\<rparr>, \<lparr>is_upper_edge = True, edge_value = 2\<rparr>]"
  by (simp add: get_edges_def item_edges_def qsort_def touching_lower_item_def touching_upper_item_def get_index_def
        edge_compare_def)

text \<open>
  Claim C2, as amended. The edge array that \<open>_get_edges\<close> produces holds the two edges
  of every item and is sorted by value; on equal values a lower edge comes before an upper
  edge, so the lower edge of one item is met before the coincident upper edge of another.
\<close>

theorem get_edges_sorted_lower_first:
  "sorted_lower_first (get_edges items axis) \<and>
   mset (get_edges items axis) = mset (concat (map (item_edges axis) items))"
proof -
  have "sorted_wrt (\<lambda>a b. edge_key a \<le> edge_key b) (get_edges items axis)"
    using get_edges_sorted_key [of items axis] by (simp add: sorted_map)
  then show ?thesis
    by (simp add: sorted_lower_first_def edge_key_le get_edges_def mset_qsort)
qed

theorem get_edges_sorted_lower_first_witness:
  "get_edges [touching_lower_item, touching_upper_item] 0 =
     [\<lparr>is_upper_edge = False, edge_value = 0\<rparr>, \<lparr>is_upper_edge = False, edge_value = 1\<rparr>,
      \<lparr>is_upper_edge = True, edge_value = 1\<rparr>, \<lparr>is_upper_edge = True, edge_value = 2\<rparr>]
   \<and> sorted_lower_first (get_edges [touching_lower_item, touching_upper_item] 0)"
  using get_edges_sorted_lower_first [of "[touching_lower_item, touching_upper_item]" 0] get_edges_touching by simp

text \<open>
  Claim C2, as stated, fails: for two items that touch at \<open>x = 1\<close> the comparator puts
  the lower edge first in both argument orders, and in the sorted array the lower edge of
  the second item stands before the upper edge of the first.
\<close>

theorem get_edges_not_upper_first:
  "edge_compare \<lparr>is_upper_edge = False, edge_value = 1\<rparr> \<lparr>is_upper_edge = True, edge_value = 1\<rparr> = - 1
   \<and> edge_compare \<lparr>is_upper_edge = True, edge_value = 1\<rparr> \<lparr>is_upper_edge = False, edge_value = 1\<rparr> = 1
   \<and> get_edges [touching_lower_item, touching_upper_item] 0 =
     [\<lparr>is_upper_edge = False, edge_value = 0\<rparr>, \<lparr>is_upper_edge = False, edge_value = 1\<rparr>,
      \<lparr>is_upper_edge = True, edge_value = 1\<rparr>, \<lparr>is_upper_edge = True, edge_value = 2\<rparr>]
   \<and> \<not> sorted_upper_first (get_edges [touching_lower_item, touching_upper_item] 0)"
  by (simp add: get_edges_touching sorted_upper_first_def) (simp add: edge_compare_def)

subsection \<open>The scenario trees\<close>

lemma ln2_bounds: "0 < ln (2::real)" "ln (2::real) \<le> 10 / 13"
proof -
  show "0 < ln (2::real)" by simp
  have "(2::real) \<le> 1 + (10/13) + (10/13)\<^sup>2 / 2" by (simp add: power2_eq_square)
  also have "\<dots> \<le> exp (10/13)" by (rule exp_lower_Taylor_quadratic) simp
  finally have "ln (2::real) \<le> ln (exp (10/13))" by (subst ln_le_cancel_iff) simp_all
  then show "ln (2::real) \<le> 10 / 13" by simp
qed

lemma ln3_bounds: "10 / 13 < ln (3::real)" "ln (3::real) \<le> 20 / 13"
proof -
  have "exp (10/13 :: real) < exp 1" by simp
  also have "\<dots> \<le> 3" by (rule exp_le)
  finally have "ln (exp (10/13 :: real)) < ln 3" by (subst ln_less_cancel_iff) simp_all
  then show "10 / 13 < ln (3::real)" by simp
  have "(3::real) \<le> 1 + (20/13) + (20/13)\<^sup>2 / 2" by (simp add: power2_eq_square)
  also have "\<dots> \<le> exp (20/13)" by (rule exp_lower_Taylor_quadratic) simp
  finally have "ln (3::real) \<le> ln (exp (20/13))" by (subst ln_le_cancel_iff) simp_all
  then show "ln (3::real) \<le> 20 / 13" by simp
qed

lemma auto_depth_2: "auto_depth 0 2 = 9"
  using ln2_bounds by (simp add: auto_depth_def ceiling_eq_iff)

lemma auto_depth_3: "auto_depth 0 3 = 10"
  using ln3_bounds by (simp add: auto_depth_def ceiling_eq_iff)

lemma build_numeral:
  "build (numeral k) items bnds depth t =
     (if depth = max_depth t \<or> int (length items) \<le> min_items t
      then Some (new_leaf (map item_id items) t)
      else
        (case kd_split t items bnds of
           None \<Rightarrow> Some (new_leaf (map item_id items) t)
         | Some (axis, split, lower_items, lower_bounds, upper_items, upper_bounds) \<Rightarrow>
             (let (nid, t1) = new_node t in
              case build (pred_numeral k) lower_items lower_bounds (depth + 1) t1 of
                None \<Rightarrow> None
              | Some (lower_id, t2) \<Rightarrow>
                  (case build (pred_numeral k) upper_items upper_bounds (depth + 1) t2 of
                     None \<Rightarrow> None
                   | Some (upper_id, t3) \<Rightarrow>
                       Some (nid, set_node t3 nid
                               (\<lambda>n. n\<lparr>node_count := upper_id, node_type := axis,
                                       node_split := split\<rparr>))))))"
  unfolding numeral_eq_Suc [of k] by (rule build.simps)

lemmas kd_eval =
  get_edges_def item_edges_def qsort_def get_index_def set_index_def edge_compare_def
  sweep_edge_def surface_area_def largest_axis_def get_lower_bounds_def get_upper_bounds_def
  kd_split_def new_leaf_def new_node_def set_node_def next_node_def LEAF_def
  INITIAL_NODE_COUNT_def fresh_slot_def Let_def

lemma three_boxes_edges:
  "get_edges three_boxes 0 =
     [\<lparr>is_upper_edge = False, edge_value = 0\<rparr>, \<lparr>is_upper_edge = True, edge_value = 1\<rparr>,
      \<lparr>is_upper_edge = False, edge_value = 2\<rparr>, \<lparr>is_upper_edge = True, edge_value = 3\<rparr>,
      \<lparr>is_upper_edge = False, edge_value = 4\<rparr>, \<lparr>is_upper_edge = True, edge_value = 5\<rparr>]"
  by (simp add: three_boxes_def unit_box_at_def kd_eval)

lemma three_boxes_split:
  "hit_cost t = 20 \<Longrightarrow> empty_bonus t = 0.2 \<Longrightarrow>
   kd_split t three_boxes \<lparr>lower = \<lparr>px = 0, py = 0, pz = 0\<rparr>, upper = \<lparr>px = 5, py = 1, pz = 1\<rparr>\<rparr>
     = Some (0, 2, [\<lparr>item_id = 0, box = unit_box_at 0\<rparr>],
             \<lparr>lower = \<lparr>px = 0, py = 0, pz = 0\<rparr>, upper = \<lparr>px = 2, py = 1, pz = 1\<rparr>\<rparr>,
             [\<lparr>item_id = 1, box = unit_box_at 2\<rparr>, \<lparr>item_id = 2, box = unit_box_at 4\<rparr>],
             \<lparr>lower = \<lparr>px = 2, py = 0, pz = 0\<rparr>, upper = \<lparr>px = 5, py = 1, pz = 1\<rparr>\<rparr>)"
  by (simp add: three_boxes_def unit_box_at_def kd_eval)

lemma auto_depth_Suc:
  "auto_depth 0 (Suc (Suc 0)) = 9" "auto_depth 0 (Suc (Suc (Suc 0))) = 10"
  using auto_depth_2 auto_depth_3 by (simp_all add: numeral_2_eq_2 numeral_3_eq_3)

lemma three_box_build: "KDTreeCore_init three_boxes 0 1 20 0.2 = Some (Inr three_box_tree)"
  by (simp add: KDTreeCore_init_def auto_depth_Suc three_boxes_def unit_box_at_def cinit_def
        box_union_def build_numeral kd_eval three_box_tree_def three_box_nodes_def)

lemma contains_node_numeral:
  "contains_node (numeral k) contains_leaf t nid point =
     (if nid < 0 \<or> next_node t \<le> nid then None
      else if node_type (nodes t ! nat nid) = LEAF
      then Some (contains_leaf nid point)
      else
        (let axis = node_type (nodes t ! nat nid);
             split = node_split (nodes t ! nat nid);
             lower_id = nid + 1;
             upper_id = node_count (nodes t ! nat nid)
         in if get_index point axis < split
            then contains_node (pred_numeral k) contains_leaf t lower_id point
            else contains_node (pred_numeral k) contains_leaf t upper_id point))"
  unfolding numeral_eq_Suc [of k] by (rule contains_node.simps)

lemma three_box_contains_node:
  "contains_node 5 (KDTree_contains_leaf (enclosing_items three_boxes) three_box_tree)
     three_box_tree ROOT_NODE probe_point = Some (Inr [1])"
  by (simp add: contains_node_numeral three_box_tree_def three_box_nodes_def ROOT_NODE_def
        next_node_def LEAF_def probe_point_def get_index_def KDTree_contains_leaf_def
        leaf_items_def enclosing_items_def three_boxes_def unit_box_at_def box_contains_def
        Let_def)

text \<open>
  Claim C1. In the three-box tree of the scenario the point \<open>(2.5, 0.5, 0.5)\<close> lies
  inside the bounds. The descent from the root reaches the leaf of item 1 and its hook
  returns \<open>[1]\<close>, but \<open>contains\<close> itself drops that list and returns \<open>None\<close>.
\<close>

theorem contains_returns_none_inside_bounds:
  "KDTreeCore_init three_boxes 0 1 20 0.2 = Some (Inr three_box_tree)
   \<and> box_contains (bounds three_box_tree) probe_point
   \<and> contains_node 5 (KDTree_contains_leaf (enclosing_items three_boxes) three_box_tree)
        three_box_tree ROOT_NODE probe_point = Some (Inr [1])
   \<and> contains 5 (KDTree_contains_leaf (enclosing_items three_boxes) three_box_tree)
        three_box_tree probe_point = Some (Inr PyNone)"
proof -
  have "box_contains (bounds three_box_tree) probe_point"
    by (simp add: three_box_tree_def box_contains_def probe_point_def)
  then show ?thesis
    using three_box_build three_box_contains_node by (simp add: contains_def)
qed

lemma contains_outside_bounds:
  "\<not> box_contains (bounds t) point \<Longrightarrow> contains fuel contains_leaf t point = Some (Inr (PyList []))"
  by (simp add: contains_def)

lemma contains_inside_bounds_never_list:
  "box_contains (bounds t) point \<Longrightarrow> contains fuel contains_leaf t point \<noteq> Some (Inr (PyList ids))"
  by (auto simp: contains_def split: option.splits sum.splits)

lemma flat_build: "KDTreeCore_init [flat_item, wide_item] 0 1 20 0.2 = Some (Inr flat_tree)"
  by (simp add: KDTreeCore_init_def auto_depth_Suc flat_item_def wide_item_def cinit_def
        box_union_def build_numeral kd_eval flat_tree_def)

lemma hit_node_numeral:
  "hit_node (numeral k) hit_leaf t nid ray min_range max_range =
     (if nid < 0 \<or> next_node t \<le> nid then None
      else if node_type (nodes t ! nat nid) = LEAF
      then Some (hit_leaf nid ray max_range, [(nid, max_range)])
      else hit_branch (\<lambda>child lo hi. hit_node (pred_numeral k) hit_leaf t child ray lo hi)
             t nid ray min_range max_range)"
  unfolding numeral_eq_Suc [of k] by (rule hit_node.simps)

lemma flat_intersection: "full_intersection (bounds flat_tree) axis_ray = (True, 1, 3)"
  by (simp add: full_intersection_def flat_tree_def axis_ray_def slab_def)

lemma flat_hit:
  "hit 3 (KDTree_hit_leaf (hit_within item_distance) flat_tree) flat_tree axis_ray
     = Some (True, [(1, 2), (2, 3)])"
  using flat_intersection
  by (simp add: hit_def hit_node_numeral hit_branch_def ROOT_NODE_def
        next_node_def LEAF_def flat_tree_def axis_ray_def get_index_def vget_index_def
        KDTree_hit_leaf_def leaf_items_def hit_within_def item_distance_def Let_def)

text \<open>
  The traversal scenario of the spec: the ray from \<open>(-1, 0.5, 0.5)\<close> along the x axis
  reaches the leaves of items 0, 1 and 2 in this order, and stops at the first leaf when
  item 0 is hit.
\<close>

lemma three_box_visit_order:
  "hit 5 (\<lambda>nid ray max_range. False) three_box_tree axis_ray
     = Some (False, [(1, 3), (3, 4), (4, 6)])"
  "hit 5 (KDTree_hit_leaf (\<lambda>ids ray max_range. ids = [0]) three_box_tree) three_box_tree axis_ray
     = Some (True, [(1, 3)])"
proof -
  have i: "full_intersection (bounds three_box_tree) axis_ray = (True, 1, 6)"
    by (simp add: full_intersection_def three_box_tree_def axis_ray_def slab_def)
  show "hit 5 (\<lambda>nid ray max_range. False) three_box_tree axis_ray
     = Some (False, [(1, 3), (3, 4), (4, 6)])"
    using i
    by (simp add: hit_def hit_node_numeral hit_branch_def ROOT_NODE_def next_node_def LEAF_def
          three_box_tree_def three_box_nodes_def axis_ray_def get_index_def vget_index_def
          Let_def)
  show "hit 5 (KDTree_hit_leaf (\<lambda>ids ray max_range. ids = [0]) three_box_tree) three_box_tree
          axis_ray = Some (True, [(1, 3)])"
    using i
    by (simp add: hit_def hit_node_numeral hit_branch_def ROOT_NODE_def next_node_def LEAF_def
          three_box_tree_def three_box_nodes_def axis_ray_def get_index_def vget_index_def
          KDTree_hit_leaf_def leaf_items_def Let_def)
qed

text \<open>
  Claim C3. For a flat item in the plane \<open>x = 1\<close> and a second item around it, the
  build splits at \<open>x = 1\<close> and puts the flat item in neither child: every leaf holds
  item 1 only. A ray that meets the flat item at distance 2 and item 1 at distance 2.5
  makes the traversal call the hook on leaf 1 with range 2 and on leaf 2 with range 3; the
  hit reported is that of item 1, although item 0 is nearer.
\<close>

theorem hit_misses_item_on_split_plane:
  "KDTreeCore_init [flat_item, wide_item] 0 1 20 0.2 = Some (Inr flat_tree)
   \<and> concat (map leaf_items (filter (\<lambda>n. node_type n = LEAF) (nodes flat_tree))) = [1, 1]
   \<and> item_distance (item_id flat_item) = Some 2
   \<and> item_distance (item_id wide_item) = Some 2.5
   \<and> hit 3 (KDTree_hit_leaf (hit_within item_distance) flat_tree) flat_tree axis_ray
        = Some (True, [(1, 2), (2, 3)])"
proof -
  have "concat (map leaf_items (filter (\<lambda>n. node_type n = LEAF) (nodes flat_tree))) = [1, 1]"
    by (simp add: flat_tree_def LEAF_def leaf_items_def)
  moreover have "item_distance (item_id flat_item) = Some 2"
    and "item_distance (item_id wide_item) = Some 2.5"
    by (simp_all add: item_distance_def flat_item_def wide_item_def)
  ultimately show ?thesis
    using flat_build flat_hit by simp
qed

subsection \<open>Decoding persisted nodes\<close>

lemma nodes_new_node: "nodes (snd (new_node t)) = nodes t @ [fresh_slot]"
  by (simp add: new_node_def Let_def)

lemma fst_new_node: "fst (new_node t) = int (length (nodes t))"
  by (simp add: new_node_def Let_def next_node_def)

lemma nodes_new_leaf:
  "nodes (snd (new_leaf ids t)) =
     nodes t @ [fresh_slot\<lparr>node_type := LEAF, node_count := int (length ids),
                           node_items := (if ids = [] then node_items fresh_slot else ids)\<rparr>]"
  by (simp add: new_leaf_def new_node_def set_node_def next_node_def Let_def)

lemma other_fields_new_leaf:
  "bounds (snd (new_leaf ids t)) = bounds t"
  "max_depth (snd (new_leaf ids t)) = max_depth t"
  "min_items (snd (new_leaf ids t)) = min_items t"
  "hit_cost (snd (new_leaf ids t)) = hit_cost t"
  "empty_bonus (snd (new_leaf ids t)) = empty_bonus t"
  by (simp_all add: new_leaf_def new_node_def set_node_def Let_def)

lemma leaf_items_written:
  "leaf_items (n\<lparr>node_type := ty, node_count := int (length ids),
                 node_items := (if ids = [] then old else ids)\<rparr>) = ids"
  by (cases "ids = []") (simp_all add: leaf_items_def map_nth)

lemma encode_new_leaf:
  "node_type n = LEAF \<Longrightarrow>
   encode_node (fresh_slot\<lparr>node_type := LEAF, node_count := int (length (leaf_items n)),
                  node_items := (if leaf_items n = [] then node_items fresh_slot else leaf_items n)\<rparr>)
     = encode_node n"
  unfolding encode_node_def leaf_items_written by simp

lemma decode_encode:
  "\<exists>self'. decode_nodes (map encode_node ns) self = Inr self'
     \<and> map encode_node (nodes self') = map encode_node (nodes self) @ map encode_node ns
     \<and> bounds self' = bounds self"
proof (induction ns arbitrary: self)
  case Nil
  then show ?case by simp
next
  case (Cons n ns)
  show ?case
  proof (cases "node_type n = LEAF")
    case True
    let ?s = "snd (new_leaf (leaf_items n) self)"
    from Cons.IH [of ?s] obtain self' where
      d: "decode_nodes (map encode_node ns) ?s = Inr self'"
      and m: "map encode_node (nodes self') = map encode_node (nodes ?s) @ map encode_node ns"
      and b: "bounds self' = bounds ?s" by blast
    have "decode_nodes (map encode_node (n # ns)) self = Inr self'"
      using True d by (simp add: encode_node_def)
    moreover have "map encode_node (nodes ?s) = map encode_node (nodes self) @ [encode_node n]"
      using True by (simp add: nodes_new_leaf encode_new_leaf)
    ultimately show ?thesis using m b by (simp add: other_fields_new_leaf)
  next
    case False
    let ?n' = "fresh_slot\<lparr>node_type := node_type n, node_split := node_split n,
                          node_count := node_count n\<rparr>"
    let ?s = "set_node (snd (new_node self)) (fst (new_node self)) (\<lambda>m. m\<lparr>node_type := node_type n,
                 node_split := node_split n, node_count := node_count n\<rparr>)"
    have ns: "nodes ?s = nodes self @ [?n']"
      by (simp add: set_node_def nodes_new_node fst_new_node)
    have bs: "bounds ?s = bounds self"
      by (simp add: set_node_def new_node_def Let_def)
    from Cons.IH [of ?s] obtain self' where
      d: "decode_nodes (map encode_node ns) ?s = Inr self'"
      and m: "map encode_node (nodes self') = map encode_node (nodes ?s) @ map encode_node ns"
      and b: "bounds self' = bounds ?s" by blast
    have "decode_nodes (map encode_node (n # ns)) self = Inr self'"
      using False d by (simp add: encode_node_def case_prod_unfold)
    moreover have "encode_node ?n' = encode_node n"
      using False by (simp add: encode_node_def)
    ultimately show ?thesis using m b ns bs by simp
  qed
qed

lemma setstate_getstate:
  "\<exists>t'. setstate self (getstate t) = Inr t'
     \<and> map encode_node (nodes t') = map encode_node (nodes t)
     \<and> bounds t' = bounds t \<and> max_depth t' = max_depth t \<and> min_items t' = min_items t
     \<and> hit_cost t' = hit_cost t \<and> empty_bonus t' = empty_bonus t"
proof -
  let ?s = "reset (self\<lparr>bounds := bounds t\<rparr>)"
  from decode_encode [of "nodes t" ?s] obtain self' where
    d: "decode_nodes (map encode_node (nodes t)) ?s = Inr self'"
    and m: "map encode_node (nodes self') = map encode_node (nodes ?s) @ map encode_node (nodes t)"
    and b: "bounds self' = bounds ?s" by blast
  have "nodes ?s = []" "bounds ?s = bounds t" by (simp_all add: reset_def)
  with d m b show ?thesis by (simp add: setstate_def getstate_def)
qed

lemma encode_eq_fields:
  assumes "encode_node n = encode_node n'"
  shows "node_type n = node_type n'"
    and "node_type n \<noteq> LEAF \<Longrightarrow> node_split n = node_split n' \<and> node_count n = node_count n'"
    and "node_type n = LEAF \<Longrightarrow> leaf_items n = leaf_items n'"
  using assms by (auto simp: encode_node_def split: if_splits)

lemma same_encoding_nth:
  assumes "map encode_node (nodes t) = map encode_node (nodes t')"
  shows "next_node t = next_node t'"
    and "0 \<le> nid \<Longrightarrow> nid < next_node t \<Longrightarrow>
           encode_node (nodes t ! nat nid) = encode_node (nodes t' ! nat nid)"
proof -
  from assms have len: "length (nodes t) = length (nodes t')" by (rule map_eq_imp_length_eq)
  then show "next_node t = next_node t'" by (simp add: next_node_def)
  assume "0 \<le> nid" "nid < next_node t"
  then have i: "nat nid < length (nodes t)" by (simp add: next_node_def)
  from assms have "map encode_node (nodes t) ! nat nid = map encode_node (nodes t') ! nat nid"
    by simp
  with i len show "encode_node (nodes t ! nat nid) = encode_node (nodes t' ! nat nid)" by simp
qed

lemma hit_branch_same:
  assumes "node_type (nodes t ! nat nid) = node_type (nodes t' ! nat nid)"
    and "node_split (nodes t ! nat nid) = node_split (nodes t' ! nat nid)"
    and "node_count (nodes t ! nat nid) = node_count (nodes t' ! nat nid)"
  shows "hit_branch f t nid ray a b = hit_branch f t' nid ray a b"
  using assms by (simp add: hit_branch_def)

lemma hit_node_same:
  assumes enc: "map encode_node (nodes t) = map encode_node (nodes t')"
    and hooks: "\<And>nid. 0 \<le> nid \<Longrightarrow> nid < next_node t \<Longrightarrow> node_type (nodes t ! nat nid) = LEAF
                  \<Longrightarrow> hook nid = hook' nid"
  shows "hit_node fuel hook t nid ray a b = hit_node fuel hook' t' nid ray a b"
proof (induction fuel arbitrary: nid a b)
  case 0
  then show ?case by simp
next
  case (Suc fuel)
  show ?case
  proof (cases "nid < 0 \<or> next_node t \<le> nid")
    case True
    then show ?thesis using same_encoding_nth(1) [OF enc] by auto
  next
    case False
    then have r: "0 \<le> nid" "nid < next_node t" by auto
    note e = same_encoding_nth(2) [OF enc r]
    note f = encode_eq_fields [OF e]
    have rec: "(\<lambda>child lo hi. hit_node fuel hook t child ray lo hi)
             = (\<lambda>child lo hi. hit_node fuel hook' t' child ray lo hi)"
      by (intro ext) (rule Suc.IH)
    show ?thesis
    proof (cases "node_type (nodes t ! nat nid) = LEAF")
      case True
      with r f(1) hooks [OF r True] same_encoding_nth(1) [OF enc] show ?thesis by simp
    next
      case False
      with f have "hit_branch (\<lambda>child lo hi. hit_node fuel hook' t' child ray lo hi) t nid ray a b
          = hit_branch (\<lambda>child lo hi. hit_node fuel hook' t' child ray lo hi) t' nid ray a b"
        by (intro hit_branch_same) simp_all
      with False r f(1) rec same_encoding_nth(1) [OF enc] show ?thesis by simp
    qed
  qed
qed

lemma contains_node_same:
  assumes enc: "map encode_node (nodes t) = map encode_node (nodes t')"
    and hooks: "\<And>nid. 0 \<le> nid \<Longrightarrow> nid < next_node t \<Longrightarrow> node_type (nodes t ! nat nid) = LEAF
                  \<Longrightarrow> hook nid = hook' nid"
  shows "contains_node fuel hook t nid point = contains_node fuel hook' t' nid point"
proof (induction fuel arbitrary: nid)
  case 0
  then show ?case by simp
next
  case (Suc fuel)
  show ?case
  proof (cases "nid < 0 \<or> next_node t \<le> nid")
    case True
    then show ?thesis using same_encoding_nth(1) [OF enc] by auto
  next
    case False
    then have r: "0 \<le> nid" "nid < next_node t" by auto
    note e = same_encoding_nth(2) [OF enc r]
    note f = encode_eq_fields [OF e]
    show ?thesis
    proof (cases "node_type (nodes t ! nat nid) = LEAF")
      case True
      with r f(1) hooks [OF r True] same_encoding_nth(1) [OF enc] show ?thesis by simp
    next
      case False
      with r f Suc.IH same_encoding_nth(1) [OF enc] show ?thesis by (simp add: Let_def)
    qed
  qed
qed

lemma wrapper_hooks_same:
  assumes enc: "map encode_node (nodes t) = map encode_node (nodes t')"
    and r: "0 \<le> nid" "nid < next_node t" and leaf: "node_type (nodes t ! nat nid) = LEAF"
  shows "KDTree_hit_leaf hit_items t nid = KDTree_hit_leaf hit_items t' nid"
    and "KDTree_contains_leaf contains_items t nid = KDTree_contains_leaf contains_items t' nid"
  using encode_eq_fields(3) [OF same_encoding_nth(2) [OF enc r] leaf]
  by (auto simp: KDTree_hit_leaf_def KDTree_contains_leaf_def fun_eq_iff)

lemma same_encoding_behaviour:
  assumes enc: "map encode_node (nodes t) = map encode_node (nodes t')"
    and bnd: "bounds t = bounds t'"
  shows "hit fuel hit_leaf t ray = hit fuel hit_leaf t' ray"
    and "contains fuel contains_leaf t point = contains fuel contains_leaf t' point"
    and "hit fuel (KDTree_hit_leaf hit_items t) t ray = hit fuel (KDTree_hit_leaf hit_items t') t' ray"
    and "contains fuel (KDTree_contains_leaf contains_items t) t point
           = contains fuel (KDTree_contains_leaf contains_items t') t' point"
proof -
  have h1: "\<And>a b. hit_node fuel hit_leaf t ROOT_NODE ray a b
                  = hit_node fuel hit_leaf t' ROOT_NODE ray a b"
    by (rule hit_node_same [OF enc]) simp
  show "hit fuel hit_leaf t ray = hit fuel hit_leaf t' ray"
    by (simp add: hit_def h1 bnd cong: if_cong)
  have c1: "contains_node fuel contains_leaf t ROOT_NODE point
              = contains_node fuel contains_leaf t' ROOT_NODE point"
    by (rule contains_node_same [OF enc]) simp
  show "contains fuel contains_leaf t point = contains fuel contains_leaf t' point"
    by (simp add: contains_def c1 bnd cong: if_cong)
  have h2: "\<And>a b. hit_node fuel (KDTree_hit_leaf hit_items t) t ROOT_NODE ray a b
                  = hit_node fuel (KDTree_hit_leaf hit_items t') t' ROOT_NODE ray a b"
    by (rule hit_node_same [OF enc]) (rule wrapper_hooks_same(1) [OF enc])
  show "hit fuel (KDTree_hit_leaf hit_items t) t ray = hit fuel (KDTree_hit_leaf hit_items t') t' ray"
    by (simp add: hit_def h2 bnd cong: if_cong)
  have c2: "contains_node fuel (KDTree_contains_leaf contains_items t) t ROOT_NODE point
              = contains_node fuel (KDTree_contains_leaf contains_items t') t' ROOT_NODE point"
    by (rule contains_node_same [OF enc]) (rule wrapper_hooks_same(2) [OF enc])
  show "contains fuel (KDTree_contains_leaf contains_items t) t point
           = contains fuel (KDTree_contains_leaf contains_items t') t' point"
    by (simp add: contains_def c2 bnd cong: if_cong)
qed

subsection \<open>Built trees\<close>

lemma settings_new_node:
  "max_depth (snd (new_node t)) = max_depth t"
  "min_items (snd (new_node t)) = min_items t"
  "hit_cost (snd (new_node t)) = hit_cost t"
  "empty_bonus (snd (new_node t)) = empty_bonus t"
  "bounds (snd (new_node t)) = bounds t"
  by (simp_all add: new_node_def Let_def)

lemma settings_set_node:
  "max_depth (set_node t nid f) = max_depth t"
  "min_items (set_node t nid f) = min_items t"
  "hit_cost (set_node t nid f) = hit_cost t"
  "empty_bonus (set_node t nid f) = empty_bonus t"
  "bounds (set_node t nid f) = bounds t"
  by (simp_all add: set_node_def)

lemma nodes_set_node_first:
  "nodes (set_node t (int (length xs)) f) = xs @ f x # ys" if "nodes t = xs @ x # ys"
  using that by (simp add: set_node_def list_update_append)

lemma build_grows:
  "build fuel items bnds depth t = Some (nid, t') \<Longrightarrow>
     max_depth t' = max_depth t \<and> min_items t' = min_items t \<and> hit_cost t' = hit_cost t
     \<and> empty_bonus t' = empty_bonus t \<and> bounds t' = bounds t
     \<and> nid = int (length (nodes t))
     \<and> (\<exists>n ns. nodes t' = nodes t @ n # ns)"
proof (induction fuel arbitrary: items bnds depth t nid t')
  case 0
  then show ?case by simp
next
  case (Suc fuel)
  show ?case
  proof (cases "depth = max_depth t \<or> int (length items) \<le> min_items t")
    case True
    with Suc.prems have "new_leaf (map item_id items) t = (nid, t')" by simp
    then have "t' = snd (new_leaf (map item_id items) t)"
      and "nid = fst (new_leaf (map item_id items) t)" by simp_all
    then show ?thesis
      by (simp add: other_fields_new_leaf nodes_new_leaf)
         (simp add: new_leaf_def new_node_def next_node_def Let_def)
  next
    case False
    show ?thesis
    proof (cases "kd_split t items bnds")
      case None
      with False Suc.prems have "new_leaf (map item_id items) t = (nid, t')" by simp
      then have "t' = snd (new_leaf (map item_id items) t)"
        and "nid = fst (new_leaf (map item_id items) t)" by simp_all
      then show ?thesis
        by (simp add: other_fields_new_leaf nodes_new_leaf)
           (simp add: new_leaf_def new_node_def next_node_def Let_def)
    next
      case (Some sol)
      obtain axis split lower_items lower_bounds upper_items upper_bounds where
        sol: "sol = (axis, split, lower_items, lower_bounds, upper_items, upper_bounds)"
        by (cases sol) auto
      let ?t1 = "snd (new_node t)"
      let ?nid = "fst (new_node t)"
      from False Some sol Suc.prems obtain lower_id t2 upper_id t3 where
        b1: "build fuel lower_items lower_bounds (depth + 1) ?t1 = Some (lower_id, t2)"
        and b2: "build fuel upper_items upper_bounds (depth + 1) t2 = Some (upper_id, t3)"
        and res: "nid = ?nid"
          "t' = set_node t3 ?nid (\<lambda>n. n\<lparr>node_count := upper_id, node_type := axis,
                                          node_split := split\<rparr>)"
        by (auto simp: case_prod_unfold Let_def split: option.splits)
      note i1 = Suc.IH [OF b1] and i2 = Suc.IH [OF b2]
      from i1 obtain n1 ns1 where n1: "nodes t2 = nodes ?t1 @ n1 # ns1" by blast
      from i2 obtain n2 ns2 where n2: "nodes t3 = nodes t2 @ n2 # ns2" by blast
      have nid: "?nid = int (length (nodes t))" by (rule fst_new_node)
      have "nodes t3 = nodes t @ fresh_slot # (n1 # ns1 @ n2 # ns2)"
        using n1 n2 by (simp add: nodes_new_node)
      then have "\<exists>n ns. nodes t' = nodes t @ n # ns"
        unfolding res(2) nid by (subst nodes_set_node_first) auto
      with i1 i2 res nid show ?thesis
        by (simp add: settings_new_node settings_set_node)
    qed
  qed
qed

text \<open>
  The recursion of \<open>_build\<close> ends: at a depth of at most \<open>max_depth\<close>, a bound of more
  than \<open>max_depth - depth\<close> nested calls suffices, and the constructor always returns.
\<close>

lemma build_returns:
  "depth \<le> max_depth t \<Longrightarrow> nat (max_depth t - depth) < fuel \<Longrightarrow>
     \<exists>r. build fuel items bnds depth t = Some r"
proof (induction fuel arbitrary: items bnds depth t)
  case 0
  then show ?case by simp
next
  case (Suc fuel)
  show ?case
  proof (cases "depth = max_depth t \<or> int (length items) \<le> min_items t")
    case True
    then show ?thesis by simp
  next
    case False
    show ?thesis
    proof (cases "kd_split t items bnds")
      case None
      with False show ?thesis by simp
    next
      case (Some sol)
      obtain axis split lower_items lower_bounds upper_items upper_bounds where
        sol: "sol = (axis, split, lower_items, lower_bounds, upper_items, upper_bounds)"
        by (cases sol) auto
      let ?t1 = "snd (new_node t)"
      from False Suc.prems have d: "depth + 1 \<le> max_depth ?t1"
        "nat (max_depth ?t1 - (depth + 1)) < fuel"
        by (auto simp: settings_new_node)
      from Suc.IH [OF d] obtain lower_id t2 where
        b1: "build fuel lower_items lower_bounds (depth + 1) ?t1 = Some (lower_id, t2)"
        by fastforce
      from build_grows [OF b1] d have d2: "depth + 1 \<le> max_depth t2"
        "nat (max_depth t2 - (depth + 1)) < fuel" by simp_all
      from Suc.IH [OF d2] obtain r where
        b2: "build fuel upper_items upper_bounds (depth + 1) t2 = Some r" by blast
      from False Some sol b1 b2 show ?thesis
        by (auto simp: case_prod_unfold Let_def)
    qed
  qed
qed

lemma bounds_of_items:
  "foldl box_union acc (map box items) = None \<longleftrightarrow> acc = None \<and> items = []"
  by (induction items arbitrary: acc) (auto simp: box_union_def split: option.splits)

lemma auto_depth_nonneg: "0 < n \<Longrightarrow> 0 \<le> auto_depth d n"
proof -
  assume "0 < n"
  then have "0 \<le> ln (real n)" by simp
  then have "0 \<le> 8 + 1.3 * ln (real n)" by simp
  then have "0 \<le> \<lceil>8 + 1.3 * ln (real n)\<rceil>" by linarith
  then show ?thesis by (auto simp: auto_depth_def max_def)
qed

lemma init_returns:
  "\<exists>r. KDTreeCore_init items max_depth_arg min_items_arg hit_cost_arg empty_bonus_arg = Some r"
proof (cases "empty_bonus_arg < 0 \<or> empty_bonus_arg > 1")
  case True
  then show ?thesis by (auto simp: KDTreeCore_init_def)
next
  case False
  let ?t = "cinit\<lparr>empty_bonus := empty_bonus_arg,
                 max_depth := auto_depth max_depth_arg (length items),
                 min_items := max 1 min_items_arg,
                 hit_cost := max 1 hit_cost_arg,
                 bounds := foldl box_union None (map box items)\<rparr>"
  show ?thesis
  proof (cases "foldl box_union None (map box items)")
    case None
    with False show ?thesis by (simp add: KDTreeCore_init_def Let_def)
  next
    case (Some b)
    then have "items \<noteq> []" using bounds_of_items [of None items] by auto
    then have "0 \<le> max_depth ?t" using auto_depth_nonneg [of "length items"] by simp
    then obtain r where "build (nat (max_depth ?t) + 1) items b 0 ?t = Some r"
      using build_returns [of 0 ?t "nat (max_depth ?t) + 1" items b] by auto
    with False Some show ?thesis
      by (cases r) (simp add: KDTreeCore_init_def Let_def)
  qed
qed

text \<open>
  Every node of a built tree is well formed; in particular the ids read from a leaf are
  the ids stored in it.
\<close>

lemma sweep_edge_known:
  "axis \<in> {0, 1, 2} \<Longrightarrow> split_known s \<Longrightarrow> split_known (sweep_edge t bnds axis sa s e)"
  by (auto simp: split_known_def sweep_edge_def Let_def)

lemma sweep_known:
  "axis \<in> {0, 1, 2} \<Longrightarrow> split_known s \<Longrightarrow> split_known (foldl (sweep_edge t bnds axis sa) s es)"
  by (induction es arbitrary: s) (simp_all add: sweep_edge_known)

lemma search_axes_known:
  "set axes \<subseteq> {0, 1, 2} \<Longrightarrow> split_known s \<Longrightarrow> split_known (search_axes t items bnds sa s axes)"
proof (induction axes arbitrary: s)
  case Nil
  then show ?case by simp
next
  case (Cons axis axes)
  let ?s' = "foldl (sweep_edge t bnds axis sa)
               (s\<lparr>lower_count := 0, upper_count := int (length items)\<rparr>) (get_edges items axis)"
  from Cons.prems have "split_known (s\<lparr>lower_count := 0, upper_count := int (length items)\<rparr>)"
    by (simp add: split_known_def)
  with Cons.prems have k: "split_known ?s'" by (intro sweep_known) simp_all
  show ?case
  proof (cases "is_leaf ?s'")
    case True
    with Cons k show ?thesis by (simp add: Let_def)
  next
    case False
    with k show ?thesis by (simp add: Let_def)
  qed
qed

lemma largest_axis_range: "largest_axis b \<in> {0, 1, 2}"
  by (simp add: largest_axis_def Let_def)

lemma kd_split_axis:
  assumes "kd_split t items bnds = Some (axis, rest)"
  shows "axis \<in> {0, 1, 2}"
proof -
  let ?la = "largest_axis bnds"
  let ?s = "search_axes t items bnds (surface_area bnds)
              \<lparr>lower_count = 0, upper_count = int (length items),
               best_cost = real (length items) * hit_cost t,
               best_split = 0, best_axis = - 1, is_leaf = True\<rparr>
              [?la, (?la + 1) mod 3, (?la + 2) mod 3]"
  have "(?la + 1) mod 3 \<in> {0, 1, 2}" "(?la + 2) mod 3 \<in> {0, 1, 2}"
    using largest_axis_range [of bnds] by auto
  then have "split_known ?s"
    using largest_axis_range [of bnds]
    by (intro search_axes_known) (simp_all add: split_known_def)
  moreover have u: "kd_split t items bnds =
      (if is_leaf ?s then None
       else Some (best_axis ?s, best_split ?s,
                  filter (\<lambda>item. get_index (lower (box item)) (best_axis ?s) < best_split ?s) items,
                  get_lower_bounds bnds (best_split ?s) (best_axis ?s),
                  filter (\<lambda>item. get_index (upper (box item)) (best_axis ?s) > best_split ?s) items,
                  get_upper_bounds bnds (best_split ?s) (best_axis ?s)))"
    unfolding kd_split_def Let_def by (rule refl)
  have "\<not> is_leaf ?s \<and> axis = best_axis ?s"
  proof (cases "is_leaf ?s")
    case True
    with u assms show ?thesis by simp
  next
    case False
    with u assms show ?thesis by simp
  qed
  ultimately show ?thesis by (simp add: split_known_def)
qed

lemma node_ok_fresh: "node_ok fresh_slot"
  by (simp add: node_ok_def fresh_slot_def LEAF_def)

lemma node_ok_leaf:
  "node_ok (fresh_slot\<lparr>node_type := LEAF, node_count := int (length ids),
                        node_items := (if ids = [] then node_items fresh_slot else ids)\<rparr>)"
  by (simp add: node_ok_def fresh_slot_def)

lemma node_ok_branch:
  "axis \<in> {0, 1, 2} \<Longrightarrow> node_ok (n\<lparr>node_count := c, node_type := axis, node_split := s\<rparr>)"
  by (auto simp: node_ok_def LEAF_def)

lemma list_all_set_node:
  "list_all node_ok (nodes t) \<Longrightarrow> node_ok (f (nodes t ! nat nid)) \<Longrightarrow>
     list_all node_ok (nodes (set_node t nid f))"
  by (auto simp: set_node_def list_all_iff dest!: set_update_subset_insert [THEN subsetD])

lemma build_nodes_ok:
  "build fuel items bnds depth t = Some (nid, t') \<Longrightarrow> list_all node_ok (nodes t) \<Longrightarrow>
     list_all node_ok (nodes t')"
proof (induction fuel arbitrary: items bnds depth t nid t')
  case 0
  then show ?case by simp
next
  case (Suc fuel)
  have leaf: "list_all node_ok (nodes (snd (new_leaf ids t)))" for ids
    using Suc.prems(2) by (simp add: nodes_new_leaf node_ok_leaf)
  show ?case
  proof (cases "depth = max_depth t \<or> int (length items) \<le> min_items t")
    case True
    with Suc.prems have "t' = snd (new_leaf (map item_id items) t)" by auto
    with leaf show ?thesis by simp
  next
    case False
    show ?thesis
    proof (cases "kd_split t items bnds")
      case None
      with False Suc.prems have "t' = snd (new_leaf (map item_id items) t)" by auto
      with leaf show ?thesis by simp
    next
      case (Some sol)
      obtain axis split lower_items lower_bounds upper_items upper_bounds where
        sol: "sol = (axis, split, lower_items, lower_bounds, upper_items, upper_bounds)"
        by (cases sol) auto
      let ?t1 = "snd (new_node t)"
      let ?nid = "fst (new_node t)"
      from False Some sol Suc.prems obtain lower_id t2 upper_id t3 where
        b1: "build fuel lower_items lower_bounds (depth + 1) ?t1 = Some (lower_id, t2)"
        and b2: "build fuel upper_items upper_bounds (depth + 1) t2 = Some (upper_id, t3)"
        and res: "t' = set_node t3 ?nid (\<lambda>n. n\<lparr>node_count := upper_id, node_type := axis,
                                               node_split := split\<rparr>)"
        by (auto simp: case_prod_unfold Let_def split: option.splits)
      have "list_all node_ok (nodes ?t1)"
        using Suc.prems(2) by (simp add: nodes_new_node node_ok_fresh)
      then have "list_all node_ok (nodes t2)" by (rule Suc.IH [OF b1])
      then have "list_all node_ok (nodes t3)" by (rule Suc.IH [OF b2])
      moreover have "axis \<in> {0, 1, 2}" using Some sol kd_split_axis by blast
      ultimately show ?thesis
        unfolding res by (intro list_all_set_node node_ok_branch)
    qed
  qed
qed

lemma built_nodes_ok:
  assumes "KDTreeCore_init items max_depth_arg min_items_arg hit_cost_arg empty_bonus_arg
             = Some (Inr t)"
  shows "list_all node_ok (nodes t)"
proof -
  let ?t = "cinit\<lparr>empty_bonus := empty_bonus_arg,
                 max_depth := auto_depth max_depth_arg (length items),
                 min_items := max 1 min_items_arg,
                 hit_cost := max 1 hit_cost_arg,
                 bounds := foldl box_union None (map box items)\<rparr>"
  have start: "list_all node_ok (nodes ?t)" by (simp add: cinit_def)
  show ?thesis
  proof (cases "foldl box_union None (map box items)")
    case None
    with assms have "t = snd (new_leaf (map item_id items) ?t)"
      by (auto simp: KDTreeCore_init_def Let_def split: if_splits)
    then show ?thesis
      using node_ok_leaf [of "map item_id items"] by (simp add: nodes_new_leaf cinit_def)
  next
    case (Some b)
    with assms obtain root_id where
      "build (nat (max_depth ?t) + 1) items b 0 ?t = Some (root_id, t)"
      by (auto simp: KDTreeCore_init_def Let_def simp del: build.simps
            split: if_splits option.splits)
    from build_nodes_ok [OF this start] show ?thesis .
  qed
qed

lemma built_leaf_items:
  assumes "KDTreeCore_init items max_depth_arg min_items_arg hit_cost_arg empty_bonus_arg
             = Some (Inr t)"
    and "n \<in> set (nodes t)" and "node_type n = LEAF"
  shows "leaf_items n = node_items n"
proof -
  from built_nodes_ok [OF assms(1)] assms(2) have "node_ok n" by (simp add: list_all_iff)
  with assms(3) show ?thesis by (simp add: node_ok_def leaf_items_def map_nth)
qed

text \<open>
  The nodes that a build adds form a subtree, so the traversals of a built tree return:
  as many nested calls as the tree has nodes suffice.
\<close>

lemma subtree_range: "subtree ns i j \<Longrightarrow> i < j \<and> j \<le> length ns"
  by (induction rule: subtree.induct) auto

lemma subtree_same:
  "subtree ns i j \<Longrightarrow> length ns \<le> length ns' \<Longrightarrow> (\<And>k. i \<le> k \<Longrightarrow> k < j \<Longrightarrow> ns' ! k = ns ! k)
     \<Longrightarrow> subtree ns' i j"
proof (induction rule: subtree.induct)
  case (leaf i ns)
  then show ?case by (auto intro: subtree.leaf)
next
  case (branch i ns k j)
  from branch.hyps have r: "Suc i < k" "k < j" "j \<le> length ns"
    using subtree_range by blast+
  have "subtree ns' (Suc i) k" using branch.prems r by (intro branch.IH) auto
  moreover have "subtree ns' k j" using branch.prems r by (intro branch.IH) auto
  moreover have "ns' ! i = ns ! i" using branch.prems r by auto
  ultimately show ?case using branch.hyps branch.prems(1) by (auto intro: subtree.branch)
qed

lemma subtree_appended_leaf:
  "node_type n = LEAF \<Longrightarrow> subtree (ns @ [n]) (length ns) (Suc (length ns))"
  by (rule subtree.leaf) simp_all

lemma new_leaf_subtree:
  "subtree (nodes (snd (new_leaf ids t))) (length (nodes t))
     (length (nodes (snd (new_leaf ids t))))"
  unfolding nodes_new_leaf length_append_singleton by (rule subtree_appended_leaf) simp

lemma build_subtree:
  "build fuel items bnds depth t = Some (nid, t') \<Longrightarrow>
     subtree (nodes t') (length (nodes t)) (length (nodes t'))"
proof (induction fuel arbitrary: items bnds depth t nid t')
  case 0
  then show ?case by simp
next
  case (Suc fuel)
  note leaf = new_leaf_subtree [of _ t]
  show ?case
  proof (cases "depth = max_depth t \<or> int (length items) \<le> min_items t")
    case True
    with Suc.prems have "t' = snd (new_leaf (map item_id items) t)" by auto
    with leaf show ?thesis by simp
  next
    case False
    show ?thesis
    proof (cases "kd_split t items bnds")
      case None
      with False Suc.prems have "t' = snd (new_leaf (map item_id items) t)" by auto
      with leaf show ?thesis by simp
    next
      case (Some sol)
      obtain axis split lower_items lower_bounds upper_items upper_bounds where
        sol: "sol = (axis, split, lower_items, lower_bounds, upper_items, upper_bounds)"
        by (cases sol) auto
      let ?t1 = "snd (new_node t)"
      let ?nid = "fst (new_node t)"
      let ?f = "\<lambda>n. n\<lparr>node_count := upper_id, node_type := axis, node_split := split\<rparr>"
      from False Some sol Suc.prems obtain lower_id t2 upper_id t3 where
        b1: "build fuel lower_items lower_bounds (depth + 1) ?t1 = Some (lower_id, t2)"
        and b2: "build fuel upper_items upper_bounds (depth + 1) t2 = Some (upper_id, t3)"
        and res: "t' = set_node t3 ?nid (\<lambda>n. n\<lparr>node_count := upper_id, node_type := axis,
                                               node_split := split\<rparr>)"
        by (auto simp: case_prod_unfold Let_def split: option.splits)
      let ?i = "length (nodes t)"
      from build_grows [OF b1] obtain n1 ns1 where n1: "nodes t2 = nodes ?t1 @ n1 # ns1" by blast
      from build_grows [OF b2] obtain n2 ns2 where n2: "nodes t3 = nodes t2 @ n2 # ns2"
        and up: "upper_id = int (length (nodes t2))" by blast
      have l1: "length (nodes ?t1) = Suc ?i" by (simp add: nodes_new_node)
      have nid: "?nid = int ?i" by (rule fst_new_node)
      have n': "nodes t' = (nodes t3)[?i := (nodes t3 ! ?i)
                  \<lparr>node_count := upper_id, node_type := axis, node_split := split\<rparr>]"
        unfolding res nid by (simp add: set_node_def)
      have len: "length (nodes t') = length (nodes t3)" by (simp add: n')
      have i_lt: "?i < length (nodes t3)" using n1 n2 l1 by simp
      have s1: "subtree (nodes t2) (Suc ?i) (length (nodes t2))"
        using Suc.IH [OF b1] l1 by simp
      have s2: "subtree (nodes t3) (length (nodes t2)) (length (nodes t3))"
        by (rule Suc.IH [OF b2])
      have A: "subtree (nodes t') (Suc ?i) (length (nodes t2))"
      proof (rule subtree_same [OF s1])
        show "length (nodes t2) \<le> length (nodes t')" using n2 len by simp
        fix k assume "Suc ?i \<le> k" "k < length (nodes t2)"
        then show "nodes t' ! k = nodes t2 ! k" using n2 by (simp add: n' nth_append)
      qed
      have B: "subtree (nodes t') (length (nodes t2)) (length (nodes t'))"
        unfolding len
      proof (rule subtree_same [OF s2])
        show "length (nodes t3) \<le> length (nodes t')" using len by simp
        fix k assume "length (nodes t2) \<le> k" "k < length (nodes t3)"
        then show "nodes t' ! k = nodes t3 ! k" using n1 l1 by (simp add: n')
      qed
      have "axis \<in> {0, 1, 2}" using Some sol kd_split_axis by blast
      then have C: "node_type (nodes t' ! ?i) \<noteq> LEAF" using i_lt by (auto simp: n' LEAF_def)
      have D: "node_count (nodes t' ! ?i) = int (length (nodes t2))"
        using i_lt up by (simp add: n')
      have E: "?i < length (nodes t')" using i_lt len by simp
      show ?thesis by (rule subtree.branch [OF E C A D B])
    qed
  qed
qed

lemma built_subtree:
  assumes "KDTreeCore_init items max_depth_arg min_items_arg hit_cost_arg empty_bonus_arg
             = Some (Inr t)"
  shows "subtree (nodes t) 0 (length (nodes t))"
proof -
  let ?t = "cinit\<lparr>empty_bonus := empty_bonus_arg,
                 max_depth := auto_depth max_depth_arg (length items),
                 min_items := max 1 min_items_arg,
                 hit_cost := max 1 hit_cost_arg,
                 bounds := foldl box_union None (map box items)\<rparr>"
  have start: "nodes ?t = []" by (simp add: cinit_def)
  show ?thesis
  proof (cases "foldl box_union None (map box items)")
    case None
    with assms have "t = snd (new_leaf (map item_id items) ?t)"
      by (auto simp: KDTreeCore_init_def Let_def split: if_splits)
    then show ?thesis
      using new_leaf_subtree [of "map item_id items" ?t] start by simp
  next
    case (Some b)
    with assms obtain root_id where
      "build (nat (max_depth ?t) + 1) items b 0 ?t = Some (root_id, t)"
      by (auto simp: KDTreeCore_init_def Let_def simp del: build.simps
            split: if_splits option.splits)
    from build_subtree [OF this] start show ?thesis by simp
  qed
qed

lemma near_then_far_returns:
  assumes "\<exists>r. x = Some r" and "\<exists>r. y = Some r"
  shows "\<exists>r. (case x of
                None \<Rightarrow> None
              | Some (is_hit, calls) \<Rightarrow>
                  if is_hit then Some (True, calls)
                  else (case y of
                          None \<Rightarrow> None
                        | Some (is_hit', calls') \<Rightarrow> Some (is_hit', calls @ calls'))) = Some r"
  using assms by (auto split: prod.splits)

lemma hit_branch_returns:
  assumes lower: "\<And>lo hi. \<exists>r. f (nid + 1) lo hi = Some r"
    and upper: "\<And>lo hi. \<exists>r. f (node_count (nodes t ! nat nid)) lo hi = Some r"
  shows "\<exists>r. hit_branch f t nid ray a b = Some r"
proof -
  define split where "split = node_split (nodes t ! nat nid)"
  define o_a where "o_a = get_index (origin ray) (node_type (nodes t ! nat nid))"
  define d_a where "d_a = vget_index (direction ray) (node_type (nodes t ! nat nid))"
  define pd where "pd = (split - o_a) / d_a"
  define below where "below \<longleftrightarrow> o_a < split \<or> (o_a = split \<and> d_a < 0)"
  define near where "near = (if below then nid + 1 else node_count (nodes t ! nat nid))"
  define far where "far = (if below then node_count (nodes t ! nat nid) else nid + 1)"
  have eq: "hit_branch f t nid ray a b =
      (if d_a = 0 then (if o_a < split then f (nid + 1) a b
                        else f (node_count (nodes t ! nat nid)) a b)
       else if pd > b \<or> pd \<le> 0 then f near a b
       else if pd < a then f far a b
       else (case f near a pd of
               None \<Rightarrow> None
             | Some (is_hit, calls) \<Rightarrow>
                 if is_hit then Some (True, calls)
                 else (case f far pd b of
                         None \<Rightarrow> None
                       | Some (is_hit', calls') \<Rightarrow> Some (is_hit', calls @ calls'))))"
    unfolding hit_branch_def Let_def split_def o_a_def d_a_def pd_def below_def near_def far_def
    by (rule refl)
  have n: "\<exists>r. f near lo hi = Some r" for lo hi
    unfolding near_def using lower upper by (cases below) simp_all
  have fr: "\<exists>r. f far lo hi = Some r" for lo hi
    unfolding far_def using lower upper by (cases below) simp_all
  show ?thesis
  proof (cases "d_a = 0")
    case True
    then show ?thesis unfolding eq using lower [of a b] upper [of a b] by (cases "o_a < split") simp_all
  next
    case d: False
    show ?thesis
    proof (cases "pd > b \<or> pd \<le> 0")
      case True
      with d show ?thesis unfolding eq using n [of a b] by simp
    next
      case p1: False
      show ?thesis
      proof (cases "pd < a")
        case True
        with d p1 show ?thesis unfolding eq using fr [of a b] by simp
      next
        case False
        with d p1 show ?thesis
          unfolding eq using near_then_far_returns [OF n [of a pd] fr [of pd b]] by simp
      qed
    qed
  qed
qed

lemma hit_node_returns:
  "subtree (nodes t) i j \<Longrightarrow> j - i \<le> fuel \<Longrightarrow>
     \<exists>r. hit_node fuel hit_leaf t (int i) ray a b = Some r"
proof (induction "nodes t" i j arbitrary: fuel a b rule: subtree.induct)
  case (leaf i)
  then obtain fuel' where "fuel = Suc fuel'" by (cases fuel) auto
  with leaf show ?case by (simp add: next_node_def)
next
  case (branch i k j)
  from branch.hyps have r: "Suc i < k" "k < j" "j \<le> length (nodes t)"
    using subtree_range by blast+
  with branch.prems obtain fuel' where f: "fuel = Suc fuel'" "k - Suc i \<le> fuel'" "j - k \<le> fuel'"
    by (cases fuel) auto
  have "\<exists>r. hit_branch (\<lambda>child lo hi. hit_node fuel' hit_leaf t child ray lo hi) t (int i) ray a b
          = Some r"
  proof (rule hit_branch_returns)
    fix lo hi
    show "\<exists>r. hit_node fuel' hit_leaf t (int i + 1) ray lo hi = Some r"
      using branch.hyps(4) [OF f(2), of lo hi] by (simp add: add.commute)
    show "\<exists>r. hit_node fuel' hit_leaf t (node_count (nodes t ! nat (int i))) ray lo hi = Some r"
      using branch.hyps(7) [OF f(3), of lo hi] branch.hyps(5) by simp
  qed
  with branch.hyps(1,2) f(1) show ?case by (simp add: next_node_def)
qed

lemma contains_node_returns:
  "subtree (nodes t) i j \<Longrightarrow> j - i \<le> fuel \<Longrightarrow>
     \<exists>r. contains_node fuel contains_leaf t (int i) point = Some r"
proof (induction "nodes t" i j arbitrary: fuel rule: subtree.induct)
  case (leaf i)
  then obtain fuel' where "fuel = Suc fuel'" by (cases fuel) auto
  with leaf show ?case by (simp add: next_node_def)
next
  case (branch i k j)
  from branch.hyps have r: "Suc i < k" "k < j" "j \<le> length (nodes t)"
    using subtree_range by blast+
  with branch.prems obtain fuel' where f: "fuel = Suc fuel'" "k - Suc i \<le> fuel'" "j - k \<le> fuel'"
    by (cases fuel) auto
  have "\<exists>r. contains_node fuel' contains_leaf t (int i + 1) point = Some r"
    using branch.hyps(4) [OF f(2)] by (simp add: add.commute)
  moreover have "\<exists>r. contains_node fuel' contains_leaf t (node_count (nodes t ! i)) point = Some r"
    using branch.hyps(7) [OF f(3)] branch.hyps(5) by simp
  ultimately show ?case using branch.hyps(1,2) f(1) by (simp add: next_node_def Let_def)
qed

lemma built_traversals_return:
  assumes "KDTreeCore_init items max_depth_arg min_items_arg hit_cost_arg empty_bonus_arg
             = Some (Inr t)"
  shows "\<exists>r. hit (length (nodes t)) hit_leaf t ray = Some r"
    and "\<exists>r. contains (length (nodes t)) contains_leaf t point = Some r"
proof -
  note s = built_subtree [OF assms]
  have h: "\<exists>r. hit_node (length (nodes t)) hit_leaf t ROOT_NODE ray a b = Some r" for a b
    using hit_node_returns [OF s, of "length (nodes t)" hit_leaf ray a b]
    by (simp add: ROOT_NODE_def)
  show "\<exists>r. hit (length (nodes t)) hit_leaf t ray = Some r"
    using h by (auto simp: hit_def split: prod.splits)
  have c: "\<exists>r. contains_node (length (nodes t)) contains_leaf t ROOT_NODE point = Some r"
    using contains_node_returns [OF s, of "length (nodes t)" contains_leaf point]
    by (simp add: ROOT_NODE_def)
  then show "\<exists>r. contains (length (nodes t)) contains_leaf t point = Some r"
    by (auto simp: contains_def split: sum.splits)
qed

subsection \<open>The round trip through the persisted state\<close>

text \<open>
  Claim C7. For every tree built by the constructor, \<open>__setstate__\<close> applied (to any
  object) to the output of \<open>__getstate__\<close> succeeds and gives a tree with the same
  persisted node sequence (the same order; for every node the same type; for a branch the
  same split position and upper-child index; for a leaf the same item ids), the same
  bounds and the same settings. \<open>setstate\<close> makes its nodes with \<open>_new_leaf\<close> and
  \<open>_new_node\<close> only, the builder is not run. Hit and contains traversals give the same
  results on both trees, for hooks that look at the node id and for the hooks of the
  \<open>KDTree\<close> wrapper, which look at the ids of the leaf.
\<close>

theorem persist_restore_roundtrip:
  assumes "KDTreeCore_init items max_depth_arg min_items_arg hit_cost_arg empty_bonus_arg
             = Some (Inr t)"
  shows "\<exists>t'. setstate self (getstate t) = Inr t'
           \<and> map encode_node (nodes t') = map encode_node (nodes t)
           \<and> bounds t' = bounds t \<and> max_depth t' = max_depth t \<and> min_items t' = min_items t
           \<and> hit_cost t' = hit_cost t \<and> empty_bonus t' = empty_bonus t
           \<and> hit fuel hit_leaf t' ray = hit fuel hit_leaf t ray
           \<and> contains fuel contains_leaf t' point = contains fuel contains_leaf t point
           \<and> hit fuel (KDTree_hit_leaf hit_items t') t' ray
               = hit fuel (KDTree_hit_leaf hit_items t) t ray
           \<and> contains fuel (KDTree_contains_leaf contains_items t') t' point
               = contains fuel (KDTree_contains_leaf contains_items t) t point"
proof -
  from setstate_getstate [of self t] obtain t' where
    r: "setstate self (getstate t) = Inr t'"
    and enc: "map encode_node (nodes t') = map encode_node (nodes t)"
    and rest: "bounds t' = bounds t" "max_depth t' = max_depth t" "min_items t' = min_items t"
      "hit_cost t' = hit_cost t" "empty_bonus t' = empty_bonus t"
    by blast
  from same_encoding_behaviour [OF enc rest(1)] r enc rest show ?thesis by simp
qed

theorem persist_restore_roundtrip_witness:
  "KDTreeCore_init three_boxes 0 1 20 0.2 = Some (Inr three_box_tree)
   \<and> (\<exists>t'. setstate cinit (getstate three_box_tree) = Inr t'
         \<and> map encode_node (nodes t') = map encode_node (nodes three_box_tree)
         \<and> bounds t' = bounds three_box_tree \<and> max_depth t' = max_depth three_box_tree
         \<and> min_items t' = min_items three_box_tree
         \<and> hit_cost t' = hit_cost three_box_tree \<and> empty_bonus t' = empty_bonus three_box_tree
         \<and> hit 5 (KDTree_hit_leaf (hit_within item_distance) t') t' axis_ray
             = hit 5 (KDTree_hit_leaf (hit_within item_distance) three_box_tree) three_box_tree axis_ray
         \<and> contains 5 (KDTree_contains_leaf (enclosing_items three_boxes) t') t' probe_point
             = contains 5 (KDTree_contains_leaf (enclosing_items three_boxes) three_box_tree)
                 three_box_tree probe_point)"
  using three_box_build
    persist_restore_roundtrip [OF three_box_build,
      where self = cinit and fuel = 5 and ray = axis_ray and point = probe_point
        and hit_items = "hit_within item_distance"
        and contains_items = "enclosing_items three_boxes"]
  by blast

subsection \<open>Total internal reflection\<close>




end
